theory Spec2Isabelle
  imports Main "HOL-Library.Sublist" "HOL-Library.AList" "HOL-Library.Multiset"
begin

section \<open>Search deduplicator (\<open>_fix_search_duplicates\<close>)\<close>

text \<open>
  A search index entry is the dict \<open>{"title": ..., "location": ..., "text": ...}\<close> that the
  search integration appends for every rendered page or section. Python compares such
  dicts by value, as HOL compares records.
\<close>

record entry =
  title :: string
  location :: string
  text' :: string

text \<open>
  \<open>x["location"].startswith(tuple(self.config["languages"].keys()))\<close>: a string starts
  with a tuple of prefixes when it starts with one of them.
\<close>

definition startswith :: "string \<Rightarrow> string list \<Rightarrow> bool" where
  "startswith s ps = list_ex (\<lambda>p. prefix p s) ps"

text \<open>
  The predicate of the \<open>target_lang_entries\<close> filter; the \<open>default_lang_entries\<close>
  filter uses its negation.
\<close>

definition target_lang :: "string list \<Rightarrow> entry \<Rightarrow> bool" where
  "target_lang languages x = startswith (location x) languages"

text \<open>
  The \<open>duplicated_entries\<close> filter of one default entry over the materialised list of
  target entries. The middle conjunct is the source's
  \<open>x["location"].endswith(x["location"])\<close>.
\<close>

definition duplicated_entries :: "entry \<Rightarrow> entry list \<Rightarrow> entry list" where
  "duplicated_entries default_lang_entry target_lang_entries =
     filter (\<lambda>x. title x = title default_lang_entry
                  \<and> suffix (location x) (location x)
                  \<and> text' x = text' default_lang_entry) target_lang_entries"

text \<open>
  The inner loop: every duplicated entry that is still \<open>in\<close> the index is removed
  with \<open>list.remove\<close>, which deletes the first element equal to it.
\<close>

fun remove_duplicated :: "entry list \<Rightarrow> entry list \<Rightarrow> entry list" where
  "remove_duplicated [] search_index_entries = search_index_entries"
| "remove_duplicated (duplicated_entry # rest) search_index_entries =
     remove_duplicated rest
       (if duplicated_entry \<in> set search_index_entries
        then remove1 duplicated_entry search_index_entries
        else search_index_entries)"

lemma length_remove_duplicated:
  "length (remove_duplicated ds idx) \<le> length idx"
proof (induction ds arbitrary: idx)
  case Nil
  show ?case by simp
next
  case (Cons d ds)
  have "length (remove1 d idx) \<le> length idx"
    by (simp add: length_remove1)
  with Cons.IH [of "remove1 d idx"] Cons.IH [of idx] show ?case
    by (auto intro: le_trans)
qed

text \<open>
  The outer loop. \<open>default_lang_entries\<close> is a lazy \<open>filter\<close> object over the live
  list \<open>search_index_entries\<close>, not a copy: it holds a list iterator, that is the
  list and a position \<open>i\<close>. Each step reads the element at position \<open>i\<close> of the list as
  it is then, advances the position by one, and hands the element to the loop body when
  the predicate accepts it. The body removes elements from that same list.
  \<open>target_lang_entries\<close> is materialised with \<open>list(...)\<close> before the loop.
\<close>

function default_lang_loop ::
  "string list \<Rightarrow> entry list \<Rightarrow> entry list \<Rightarrow> nat \<Rightarrow> entry list" where
  "default_lang_loop languages target_lang_entries search_index_entries i =
     (if i < length search_index_entries then
        (let x = search_index_entries ! i in
         if target_lang languages x
         then default_lang_loop languages target_lang_entries search_index_entries (Suc i)
         else default_lang_loop languages target_lang_entries
                (remove_duplicated (duplicated_entries x target_lang_entries)
                   search_index_entries) (Suc i))
      else search_index_entries)"
  by pat_completeness auto
termination
proof (relation "measure (\<lambda>(languages, targets, idx, i). length idx - i)")
  show "wf (measure (\<lambda>(languages, targets, idx, i). length idx - i))"
    by simp
next
  fix languages :: "string list" and targets idx :: "entry list" and i :: nat and x
  assume "i < length idx"
  then show "((languages, targets, idx, Suc i), (languages, targets, idx, i))
               \<in> measure (\<lambda>(languages, targets, idx, i). length idx - i)"
    by simp
next
  fix languages :: "string list" and targets idx :: "entry list" and i :: nat and x
  assume "i < length idx"
  moreover have "length (remove_duplicated (duplicated_entries x targets) idx) \<le> length idx"
    by (rule length_remove_duplicated)
  ultimately show
    "((languages, targets, remove_duplicated (duplicated_entries x targets) idx, Suc i),
      (languages, targets, idx, i))
       \<in> measure (\<lambda>(languages, targets, idx, i). length idx - i)"
    by simp
qed

declare default_lang_loop.simps [simp del]

text \<open>
  The whole function, on the entries of the shared index. When the search index has
  neither an \<open>_entries\<close> nor an \<open>entries\<close> attribute (\<open>None\<close> here) the source logs a
  warning and returns without touching anything.
\<close>

definition fix_search_duplicates :: "string list \<Rightarrow> entry list option \<Rightarrow> entry list option" where
  "fix_search_duplicates languages search_index =
     (case search_index of
        None \<Rightarrow> None
      | Some search_index_entries \<Rightarrow>
          Some (default_lang_loop languages
                  (filter (target_lang languages) search_index_entries)
                  search_index_entries 0))"

section \<open>Navigation title translation (\<open>_maybe_translate_titles\<close>)\<close>

text \<open>
  A navigation item of the host is a Section, a Page or a Link. Each has a \<open>title\<close>
  attribute (a Page whose title is not set yet carries \<open>None\<close>) and a \<open>children\<close>
  attribute (\<open>None\<close> for a Page or a Link, a list for a Section), so both \<open>hasattr\<close>
  tests of the source succeed on every item. \<open>None\<close> and the empty list are both falsy
  in \<open>item.children\<close>'s test; both are the empty list here.
\<close>

datatype nav_item = NavItem (item_title: "string option") (children: "nav_item list")

type_synonym title_table = "(string \<times> string) list"

text \<open>
  \<open>nav_translations\<close> is a dict from locale to a dict from title to title; dicts are
  association lists. The function mutates the items in place and returns whether a title
  was translated; here it returns that flag with the items as they are afterwards.
  \<open>get_translated_nav\<close> is \<open>self.config["nav_translations"].get(language, {})\<close>;
  \<open>translate_items\<close> is the \<open>for item in items\<close> loop, its flag the variable
  \<open>translated\<close>.
\<close>

definition get_translated_nav :: "(string \<times> title_table) list \<Rightarrow> string \<Rightarrow> title_table" where
  "get_translated_nav nav_translations language =
     (case map_of nav_translations language of None \<Rightarrow> [] | Some t \<Rightarrow> t)"

fun maybe_translate_titles ::
  "(string \<times> title_table) list \<Rightarrow> string \<Rightarrow> nav_item list \<Rightarrow> bool \<times> nav_item list"
and translate_items ::
  "(string \<times> title_table) list \<Rightarrow> string \<Rightarrow> title_table \<Rightarrow> bool \<Rightarrow> nav_item list
     \<Rightarrow> bool \<times> nav_item list"
where
  "maybe_translate_titles nav_translations language items =
     (let translated_nav = get_translated_nav nav_translations language
      in if translated_nav \<noteq> []
         then translate_items nav_translations language translated_nav False items
         else (False, items))"
| "translate_items nav_translations language translated_nav translated [] = (translated, [])"
| "translate_items nav_translations language translated_nav translated (NavItem t cs # items) =
     (let (translated1, t1) =
            (case t of
               None \<Rightarrow> (translated, t)
             | Some s \<Rightarrow> (case map_of translated_nav s of
                           None \<Rightarrow> (translated, t)
                         | Some s' \<Rightarrow> (True, Some s')));
          (translated2, cs1) =
            (if cs \<noteq> []
             then (let (r, cs') = maybe_translate_titles nav_translations language cs
                   in (r \<or> translated1, cs'))
             else (translated1, cs));
          (translated3, items1) =
            translate_items nav_translations language translated_nav translated2 items
      in (translated3, NavItem t1 cs1 # items1))"

text \<open>
  For the proofs: the item that the loop leaves for one item, given the table of the
  locale. \<open>maybe_translate_titles_items\<close> below shows that the loop computes it.
\<close>

fun translated_item :: "title_table \<Rightarrow> nav_item \<Rightarrow> nav_item" where
  "translated_item translated_nav (NavItem t cs) =
     NavItem (case t of
                None \<Rightarrow> None
              | Some s \<Rightarrow> (case map_of translated_nav s of
                            None \<Rightarrow> Some s
                          | Some s' \<Rightarrow> Some s'))
             (map (translated_item translated_nav) cs)"

section \<open>Locale registry (\<open>_set_languages_options\<close>) and \<open>on_config\<close>\<close>

text \<open>
  The options of one locale, as the \<open>Locale\<close> option validator leaves them: a dict with
  the keys \<open>name\<close>, \<open>link\<close>, \<open>fixed_link\<close>, \<open>build\<close> and \<open>site_name\<close>, which the plugin
  reads by subscript. \<open>fixed_link\<close> and \<open>site_name\<close> may be \<open>None\<close>.
\<close>

record lang_config =
  name :: string
  link :: string
  fixed_link :: "string option"
  build :: bool
  site_name :: "string option"

text \<open>
  The plugin object: its options (\<open>self.config[...]\<close>) and the attributes that
  \<open>on_config\<close> sets. \<open>languages\<close> and \<open>nav_translations\<close> are dicts, kept as
  association lists in insertion order.
\<close>

record i18n =
  default_language :: string
  default_language_only :: bool
  search_reconfigure :: bool
  languages :: "(string \<times> lang_config) list"
  nav_translations :: "(string \<times> title_table) list"
  default_language_options :: lang_config
  all_languages :: "string list"

text \<open>Python's \<open>a or b\<close> on optional strings: \<open>None\<close> and the empty string are falsy.\<close>

definition py_or :: "string option \<Rightarrow> string option \<Rightarrow> string option" where
  "py_or a b = (case a of None \<Rightarrow> b | Some s \<Rightarrow> if s = [] then b else a)"

text \<open>
  \<open>_set_languages_options\<close>, statement by statement: the site names are filled in, the
  \<open>"default"\<close> key is popped (with the literal dict as its fallback), the popped options
  take name, site name and fixed link from the default locale's own entry when their name
  is still \<open>"default"\<close>, and an entry for the default locale is added at the end of the
  dict when it has none.
\<close>

definition set_languages_options :: "string option \<Rightarrow> i18n \<Rightarrow> i18n" where
  "set_languages_options config_site_name self =
     (let languages1 =
            map (\<lambda>(language, lang_config).
                   (language,
                    lang_config\<lparr>site_name := py_or (site_name lang_config) config_site_name\<rparr>))
                (languages self);
          popped =
            (case map_of languages1 ''default'' of
               Some options \<Rightarrow> options
             | None \<Rightarrow> \<lparr>name = ''default'', link = ''./'', fixed_link = None, build = True,
                        site_name = config_site_name\<rparr>);
          languages2 = AList.delete ''default'' languages1;
          options =
            (if name popped = ''default'' then
               (case map_of languages2 (default_language self) of
                  None \<Rightarrow> popped\<lparr>name := default_language self,
                                  site_name := config_site_name,
                                  fixed_link := None\<rparr>
                | Some default_language_config \<Rightarrow>
                    popped\<lparr>name := name default_language_config,
                           site_name := site_name default_language_config,
                           fixed_link := fixed_link default_language_config\<rparr>)
             else popped);
          languages3 =
            (if default_language self \<notin> set (map fst languages2) then
               AList.update (default_language self)
                 \<lparr>name = name options, link = ''./'', fixed_link = None,
                  build = (length languages2 = 0), site_name = config_site_name\<rparr>
                 languages2
             else languages2)
      in self\<lparr>languages := languages3, default_language_options := options\<rparr>)"

text \<open>
  The order preserving list of all the configured languages, with the source's two
  membership tests.
\<close>

fun collect_languages :: "string list \<Rightarrow> string list \<Rightarrow> string list" where
  "collect_languages [] all = all"
| "collect_languages (language # rest) all =
     collect_languages rest (if language \<notin> set all then all @ [language] else all)"

definition make_all_languages :: "i18n \<Rightarrow> i18n" where
  "make_all_languages self =
     (let all = collect_languages (map fst (languages self)) []
      in self\<lparr>all_languages :=
                 (if default_language self \<notin> set all then default_language self # all
                  else all)\<rparr>)"

text \<open>What \<open>on_config\<close> writes to the log.\<close>

datatype log_record =
    Info_adding_search_lang string
  | Warning_not_supported_by_lunr string
  | Info_ignoring_nav_translations "string list" "string list"

definition LUNR_LANGUAGES :: "string list" where
  "LUNR_LANGUAGES =
     [''ar'', ''da'', ''de'', ''en'', ''es'', ''fi'', ''fr'', ''hu'', ''it'', ''ja'', ''nl'',
      ''no'', ''pt'', ''ro'', ''ru'', ''sv'', ''th'', ''tr'', ''vi'']"

text \<open>
  The search plugin, as far as \<open>on_config\<close> touches it: its \<open>lang\<close> option, a list of
  language codes or \<open>None\<close>.
\<close>

record search_plugin =
  lang :: "string list option"

text \<open>The loop over \<open>all_languages\<close> that appends to the list \<open>search_langs\<close>.\<close>

fun search_langs_loop ::
  "string list \<Rightarrow> string list \<Rightarrow> log_record list \<Rightarrow> string list \<times> log_record list" where
  "search_langs_loop [] search_langs log = (search_langs, log)"
| "search_langs_loop (language # rest) search_langs log =
     (if language \<in> set LUNR_LANGUAGES then
        (if language \<notin> set search_langs
         then search_langs_loop rest (search_langs @ [language])
                (log @ [Info_adding_search_lang language])
         else search_langs_loop rest search_langs log)
      else search_langs_loop rest search_langs
             (log @ [Warning_not_supported_by_lunr language]))"

text \<open>
  \<open>search_langs = search_plugin.config["lang"] or []\<close>: when the option holds a
  non-empty list, \<open>search_langs\<close> is that very list and the appends land in the plugin's
  option; when the option is \<open>None\<close> or an empty list, \<open>search_langs\<close> is a new list of
  its own, which nothing stores back. The result is the plugin as it is afterwards and
  the log. \<open>utils.get_plugin\<close> gives the search plugin or \<open>None\<close>, the argument here.
\<close>

definition reconfigure_search ::
  "i18n \<Rightarrow> search_plugin option \<Rightarrow> search_plugin option \<times> log_record list" where
  "reconfigure_search self search =
     (case search of
        None \<Rightarrow> (None, [])
      | Some plugin \<Rightarrow>
          if search_reconfigure self then
            (case lang plugin of
               None \<Rightarrow> (Some plugin, snd (search_langs_loop (all_languages self) [] []))
             | Some configured \<Rightarrow>
                 if configured = []
                 then (Some plugin, snd (search_langs_loop (all_languages self) [] []))
                 else (let (search_langs, log) =
                             search_langs_loop (all_languages self) configured []
                       in (Some (plugin\<lparr>lang := Some search_langs\<rparr>), log)))
          else (Some plugin, []))"

text \<open>
  The report of a misconfigured \<open>nav_translations\<close>: a \<open>for ... else\<close> whose \<open>else\<close>
  runs when no language is a key of the table.
\<close>

definition check_nav_translations :: "i18n \<Rightarrow> i18n \<times> log_record list" where
  "check_nav_translations self =
     (if nav_translations self \<noteq> [] then
        (if list_ex (\<lambda>lang. lang \<in> set (map fst (nav_translations self)))
              (map fst (languages self))
         then (self, [])
         else (self\<lparr>nav_translations := []\<rparr>,
               [Info_ignoring_nav_translations (map fst (languages self))
                  (map fst (nav_translations self))]))
      else (self, []))"

text \<open>
  \<open>on_config\<close>, as far as it concerns the plugin's own state and the search plugin: the
  language options, the list of all languages, the early return for
  \<open>default_language_only\<close>, the search languages and the check of the navigation
  translations, in the source's order. The handling of the with-pdf plugin, of the theme,
  of the language switcher and of the sitemap do not touch this state; the localized
  copies of the configuration are the next section's subject.
\<close>

definition on_config ::
  "string option \<Rightarrow> search_plugin option \<Rightarrow> i18n
     \<Rightarrow> i18n \<times> search_plugin option \<times> log_record list" where
  "on_config config_site_name search self =
     (let self1 = make_all_languages (set_languages_options config_site_name self)
      in if default_language_only self1 then (self1, search, [])
         else (let (search1, log1) = reconfigure_search self1 search;
                   (self2, log2) = check_nav_translations self1
               in (self2, search1, log1 @ log2)))"

text \<open>
  For the examples: the plugin with the given \<open>default_language\<close> and \<open>languages\<close> and
  every other option at the default of \<open>config_scheme\<close>, before \<open>on_config\<close> has set its
  attributes; and a locale that is built, with its name.
\<close>

definition I18n :: "string \<Rightarrow> (string \<times> lang_config) list \<Rightarrow> i18n" where
  "I18n default_option languages_option =
     \<lparr>default_language = default_option, default_language_only = False, search_reconfigure = True,
      languages = languages_option, nav_translations = [],
      default_language_options =
        \<lparr>name = [], link = [], fixed_link = None, build = False, site_name = None\<rparr>,
      all_languages = []\<rparr>"

definition built_locale :: "string \<Rightarrow> string \<Rightarrow> string \<times> lang_config" where
  "built_locale language display_name =
     (language,
      \<lparr>name = display_name, link = ''./'' @ language @ ''/'', fixed_link = None, build = True,
       site_name = None\<rparr>)"

section \<open>Substitution in configuration values (\<open>_dict_replace_value\<close>, \<open>_list_replace_value\<close>)\<close>

text \<open>
  The values of a configuration tree: the scalars, strings, \<open>pathlib.Path\<close> objects
  (a Path holds its text in normal form), lists, and dicts with string keys in insertion
  order.
\<close>

datatype py_value =
    VNone
  | VBool bool
  | VInt int
  | VStr string
  | VPath string
  | VList "py_value list"
  | VDict "(string \<times> py_value) list"

datatype py_error = AttributeError | KeyError | TypeError

text \<open>
  \<open>str(Path(s))\<close> for a string \<open>s\<close>, on a POSIX system: the components between slashes
  without the empty ones and the single dots, joined by one slash, behind the root (two
  leading slashes are kept, one or more than two give one); the empty path is a dot.
\<close>

fun split_on :: "char \<Rightarrow> string \<Rightarrow> string list" where
  "split_on sep [] = [[]]"
| "split_on sep (c # cs) =
     (case split_on sep cs of
        [] \<Rightarrow> [[c]]
      | w # ws \<Rightarrow> if c = sep then [] # w # ws else (c # w) # ws)"

fun join_with :: "string \<Rightarrow> string list \<Rightarrow> string" where
  "join_with sep [] = []"
| "join_with sep [w] = w"
| "join_with sep (w # ws) = w @ sep @ join_with sep ws"

definition posix_path_str :: "string \<Rightarrow> string" where
  "posix_path_str s =
     (let root = (if prefix ''//'' s \<and> \<not> prefix ''///'' s then ''//''
                  else if prefix ''/'' s then ''/'' else []);
          parts = filter (\<lambda>p. p \<noteq> [] \<and> p \<noteq> ''.'') (split_on CHR ''/'' s)
      in if root = [] \<and> parts = [] then ''.'' else root @ join_with ''/'' parts)"

text \<open>\<open>_is_url\<close> on a string.\<close>

definition is_url :: "string \<Rightarrow> bool" where
  "is_url v = (prefix ''http://'' v \<or> prefix ''https://'' v)"

text \<open>
  The branch for a \<open>str\<close> or a \<open>Path\<close>; \<open>str_v\<close> is \<open>str(v)\<close> and \<open>old\<close> is \<open>str(old)\<close>,
  the only way the source reads the target. \<open>self._is_url(v)\<close> calls \<open>v.startswith\<close>,
  which only a \<open>str\<close> has: on a Path, as on any other value that \<open>new\<close> may be, it
  raises an AttributeError.
\<close>

definition replace_str_or_path ::
  "py_value \<Rightarrow> string \<Rightarrow> string \<Rightarrow> py_value \<Rightarrow> py_error + py_value" where
  "replace_str_or_path v str_v old new =
     (let v1 = (if str_v = old then new else v)
      in case v1 of
           VStr s \<Rightarrow> if \<not> is_url s then Inr (VStr (posix_path_str s)) else Inr v1
         | _ \<Rightarrow> Inl AttributeError)"

text \<open>
  The loops of the two functions; \<open>x\<close> is the dict or the list under construction,
  \<open>x[k] = v\<close> is \<open>AList.update\<close> and \<open>x.append(e)\<close> adds at the end. A nested dict or
  list is handed to the function for it, that is to its loop started on an empty \<open>x\<close>.
\<close>

fun dict_items_loop ::
  "(string \<times> py_value) list \<Rightarrow> string \<Rightarrow> py_value \<Rightarrow> (string \<times> py_value) list
     \<Rightarrow> py_error + (string \<times> py_value) list"
and list_loop ::
  "py_value list \<Rightarrow> string \<Rightarrow> py_value \<Rightarrow> py_value list \<Rightarrow> py_error + py_value list"
where
  "dict_items_loop [] old new x = Inr x"
| "dict_items_loop ((k, v) # items) old new x =
     (case (case v of
              VDict d \<Rightarrow> map_sum id VDict (dict_items_loop d old new [])
            | VList l \<Rightarrow> map_sum id VList (list_loop l old new [])
            | VStr s \<Rightarrow> replace_str_or_path v s old new
            | VPath p \<Rightarrow> replace_str_or_path v p old new
            | _ \<Rightarrow> Inr v) of
        Inl err \<Rightarrow> Inl err
      | Inr v1 \<Rightarrow> dict_items_loop items old new (AList.update k v1 x))"
| "list_loop [] old new x = Inr x"
| "list_loop (e # listing) old new x =
     (case (case e of
              VList l \<Rightarrow> map_sum id VList (list_loop l old new [])
            | VDict d \<Rightarrow> map_sum id VDict (dict_items_loop d old new [])
            | VStr s \<Rightarrow> replace_str_or_path e s old new
            | VPath p \<Rightarrow> replace_str_or_path e p old new
            | _ \<Rightarrow> Inr e) of
        Inl err \<Rightarrow> Inl err
      | Inr e1 \<Rightarrow> list_loop listing old new (x @ [e1]))"

definition dict_replace_value ::
  "(string \<times> py_value) list \<Rightarrow> string \<Rightarrow> py_value \<Rightarrow> py_error + (string \<times> py_value) list"
where
  "dict_replace_value directory old new = dict_items_loop directory old new []"

definition list_replace_value ::
  "py_value list \<Rightarrow> string \<Rightarrow> py_value \<Rightarrow> py_error + py_value list" where
  "list_replace_value listing old new = list_loop listing old new []"

text \<open>
  For the statement of what the pass computes: the value that takes the place of one
  value when the replacement is the string \<open>new\<close>. A string or Path equal to the target
  becomes the replacement; a string that is then not URL-like is put in the normal form
  of a path; lists and dicts keep their shape and keys; the other scalars stay.
  A Path that is not the target is outside of this description (the pass raises on it).
\<close>

fun substituted :: "string \<Rightarrow> string \<Rightarrow> py_value \<Rightarrow> py_value" where
  "substituted old new (VStr s) =
     (let s1 = (if s = old then new else s)
      in if is_url s1 then VStr s1 else VStr (posix_path_str s1))"
| "substituted old new (VPath p) =
     (let s1 = (if p = old then new else p)
      in if is_url s1 then VStr s1 else VStr (posix_path_str s1))"
| "substituted old new (VList l) = VList (map (substituted old new) l)"
| "substituted old new (VDict d) = VDict (map (\<lambda>(k, v). (k, substituted old new v)) d)"
| "substituted old new v = v"

text \<open>The keys of every dict in a value are distinct, as the keys of a dict are.\<close>

fun dict_keys_distinct :: "py_value \<Rightarrow> bool" where
  "dict_keys_distinct (VList l) = list_all dict_keys_distinct l"
| "dict_keys_distinct (VDict d) =
     (distinct (map fst d) \<and> list_all (\<lambda>(k, v). dict_keys_distinct v) d)"
| "dict_keys_distinct v = True"

text \<open>No Path in the value but Paths that are string-equal to the target.\<close>

fun no_path_but :: "string \<Rightarrow> py_value \<Rightarrow> bool" where
  "no_path_but old (VPath p) = (p = old)"
| "no_path_but old (VList l) = list_all (no_path_but old) l"
| "no_path_but old (VDict d) = list_all (\<lambda>(k, v). no_path_but old v) d"
| "no_path_but old v = True"

section \<open>Localized copies of the configuration (\<open>on_config\<close>, \<open>on_env\<close>)\<close>

text \<open>
  Whether two configurations share an object decides what a write to one of them does to
  the other, so this part has an explicit store. An object lives at an address; a list
  holds the addresses of its elements, a dict the addresses of its values under string
  keys (an instance of a class is the dict of its attributes). The heap is the list of
  all objects, the object at address \<open>a\<close> being its element \<open>a\<close>; a new object is put
  at the end.
\<close>

type_synonym addr = nat

datatype py_object =
    ONone
  | OBool bool
  | OInt int
  | OStr string
  | OList "addr list"
  | ODict "(string \<times> addr) list"

type_synonym heap = "py_object list"

fun object_children :: "py_object \<Rightarrow> addr list" where
  "object_children (OList xs) = xs"
| "object_children (ODict items) = map snd items"
| "object_children obj = []"

text \<open>The truth value of an object, as \<open>if hooks:\<close> takes it.\<close>

fun truthy :: "py_object \<Rightarrow> bool" where
  "truthy ONone = False"
| "truthy (OBool b) = b"
| "truthy (OInt i) = (i \<noteq> 0)"
| "truthy (OStr s) = (s \<noteq> [])"
| "truthy (OList xs) = (xs \<noteq> [])"
| "truthy (ODict items) = (items \<noteq> [])"

text \<open>
  \<open>copy.deepcopy(x, memo)\<close>. An object that the memo knows is answered from the memo.
  \<open>None\<close>, a bool, an int and a str are atomic: the copy is the object itself. For a
  list or a dict the new, empty object is made and entered in the memo first, then the
  elements are copied in order, each with the memo as the copies before left it, and put
  into the new object. The first argument bounds the depth of the recursion; the result
  is \<open>None\<close> when it does not suffice (or when an address is outside of the heap).
\<close>

fun deepcopy ::
  "nat \<Rightarrow> heap \<Rightarrow> (addr \<times> addr) list \<Rightarrow> addr \<Rightarrow> (heap \<times> (addr \<times> addr) list \<times> addr) option"
and deepcopy_all ::
  "nat \<Rightarrow> heap \<Rightarrow> (addr \<times> addr) list \<Rightarrow> addr list
     \<Rightarrow> (heap \<times> (addr \<times> addr) list \<times> addr list) option"
where
  "deepcopy 0 h memo x = None"
| "deepcopy (Suc depth) h memo x =
     (case map_of memo x of
        Some y \<Rightarrow> Some (h, memo, y)
      | None \<Rightarrow>
          if x < length h then
            (case h ! x of
               OList xs \<Rightarrow>
                 (case deepcopy_all depth (h @ [OList []]) ((x, length h) # memo) xs of
                    None \<Rightarrow> None
                  | Some (h1, memo1, ys) \<Rightarrow>
                      Some (h1[length h := OList ys], memo1, length h))
             | ODict items \<Rightarrow>
                 (case deepcopy_all depth (h @ [ODict []]) ((x, length h) # memo)
                         (map snd items) of
                    None \<Rightarrow> None
                  | Some (h1, memo1, ys) \<Rightarrow>
                      Some (h1[length h := ODict (zip (map fst items) ys)], memo1, length h))
             | _ \<Rightarrow> Some (h, memo, x))
          else None)"
| "deepcopy_all depth h memo [] = Some (h, memo, [])"
| "deepcopy_all depth h memo (x # xs) =
     (case deepcopy depth h memo x of
        None \<Rightarrow> None
      | Some (h1, memo1, y) \<Rightarrow>
          (case deepcopy_all depth h1 memo1 xs of
             None \<Rightarrow> None
           | Some (h2, memo2, ys) \<Rightarrow> Some (h2, memo2, y # ys)))"

text \<open>
  Subscript assignment, subscription, \<open>pop\<close> and \<open>get\<close> on the dict at an address. On an
  object that is not a dict they raise a TypeError; subscription and \<open>pop\<close> without a
  default raise a KeyError on a missing key.
\<close>

definition dict_setitem :: "heap \<Rightarrow> addr \<Rightarrow> string \<Rightarrow> addr \<Rightarrow> py_error + heap" where
  "dict_setitem h d k v =
     (if d < length h then
        (case h ! d of
           ODict items \<Rightarrow> Inr (h[d := ODict (AList.update k v items)])
         | _ \<Rightarrow> Inl TypeError)
      else Inl TypeError)"

definition dict_getitem :: "heap \<Rightarrow> addr \<Rightarrow> string \<Rightarrow> py_error + addr" where
  "dict_getitem h d k =
     (if d < length h then
        (case h ! d of
           ODict items \<Rightarrow> (case map_of items k of None \<Rightarrow> Inl KeyError | Some v \<Rightarrow> Inr v)
         | _ \<Rightarrow> Inl TypeError)
      else Inl TypeError)"

definition dict_pop :: "heap \<Rightarrow> addr \<Rightarrow> string \<Rightarrow> py_error + heap \<times> addr" where
  "dict_pop h d k =
     (if d < length h then
        (case h ! d of
           ODict items \<Rightarrow>
             (case map_of items k of
                None \<Rightarrow> Inl KeyError
              | Some v \<Rightarrow> Inr (h[d := ODict (AList.delete k items)], v))
         | _ \<Rightarrow> Inl TypeError)
      else Inl TypeError)"

definition dict_get :: "heap \<Rightarrow> addr \<Rightarrow> string \<Rightarrow> addr option" where
  "dict_get h d k =
     (if d < length h then
        (case h ! d of ODict items \<Rightarrow> map_of items k | _ \<Rightarrow> None)
      else None)"

text \<open>
  \<open>config["plugins"] = plugins\<close> and \<open>if hooks: config["hooks"] = hooks\<close>, on the
  configuration at the address \<open>cfg\<close>. \<open>hooks\<close> is \<open>None\<close> when the configuration had no
  such key.
\<close>

definition attach_shared :: "heap \<Rightarrow> addr \<Rightarrow> addr \<Rightarrow> addr option \<Rightarrow> py_error + heap" where
  "attach_shared h cfg plugins hooks =
     (case dict_setitem h cfg ''plugins'' plugins of
        Inl err \<Rightarrow> Inl err
      | Inr h1 \<Rightarrow>
          (case hooks of
             None \<Rightarrow> Inr h1
           | Some a \<Rightarrow>
               if a < length h1 \<and> truthy (h1 ! a) then dict_setitem h1 cfg ''hooks'' a
               else Inr h1))"

text \<open>
  \<open>self.i18n_configs[language][k] = v\<close>. The dict \<open>self.i18n_configs\<close> is an object of
  the store, at the address \<open>i18n_configs\<close>: it is an attribute of the plugin, and the
  plugin is one of the plugins of the configuration.
\<close>

definition language_setitem ::
  "heap \<Rightarrow> addr \<Rightarrow> string \<Rightarrow> string \<Rightarrow> addr \<Rightarrow> py_error + heap" where
  "language_setitem h i18n_configs language k v =
     (case dict_getitem h i18n_configs language of
        Inl err \<Rightarrow> Inl err
      | Inr cfg \<Rightarrow> dict_setitem h cfg k v)"

text \<open>
  \<open>self.i18n_configs[language]["plugins"] = plugins\<close> and
  \<open>if hooks: self.i18n_configs[language]["hooks"] = hooks\<close>.
\<close>

definition attach_shared_language ::
  "heap \<Rightarrow> addr \<Rightarrow> string \<Rightarrow> addr \<Rightarrow> addr option \<Rightarrow> py_error + heap" where
  "attach_shared_language h i18n_configs language plugins hooks =
     (case language_setitem h i18n_configs language ''plugins'' plugins of
        Inl err \<Rightarrow> Inl err
      | Inr h1 \<Rightarrow>
          (case hooks of
             None \<Rightarrow> Inr h1
           | Some a \<Rightarrow>
               if a < length h1 \<and> truthy (h1 ! a)
               then language_setitem h1 i18n_configs language ''hooks'' a
               else Inr h1))"

text \<open>
  The loop \<open>for language in self.all_languages\<close>: the deep copy of the configuration is
  entered in \<open>self.i18n_configs\<close>; the entry gets the plugins and, when \<open>hooks\<close> is
  truthy, the hooks.
\<close>

fun copy_for_languages ::
  "nat \<Rightarrow> string list \<Rightarrow> addr \<Rightarrow> addr \<Rightarrow> addr \<Rightarrow> addr option \<Rightarrow> heap
     \<Rightarrow> (py_error + heap) option" where
  "copy_for_languages depth [] i18n_configs config plugins hooks h = Some (Inr h)"
| "copy_for_languages depth (language # rest) i18n_configs config plugins hooks h =
     (case deepcopy depth h [] config of
        None \<Rightarrow> None
      | Some (h1, memo, cfg) \<Rightarrow>
          (case dict_setitem h1 i18n_configs language cfg of
             Inl err \<Rightarrow> Some (Inl err)
           | Inr h2 \<Rightarrow>
               (case attach_shared_language h2 i18n_configs language plugins hooks of
                  Inl err \<Rightarrow> Some (Inl err)
                | Inr h3 \<Rightarrow>
                    copy_for_languages depth rest i18n_configs config plugins hooks h3)))"

text \<open>
  The part of \<open>on_config\<close> that makes the localized copies: hooks and plugins are popped
  from the configuration, the copies are made, and the configuration gets the plugins
  and, when \<open>hooks\<close> is truthy, the hooks back.
\<close>

definition localized_copies ::
  "nat \<Rightarrow> string list \<Rightarrow> addr \<Rightarrow> addr \<Rightarrow> heap \<Rightarrow> (py_error + heap) option" where
  "localized_copies depth all i18n_configs config h =
     (let (h1, hooks) =
            (case dict_get h config ''hooks'' of
               None \<Rightarrow> (h, None)
             | Some a \<Rightarrow> (case dict_pop h config ''hooks'' of
                            Inl err \<Rightarrow> (h, None)
                          | Inr (h', v) \<Rightarrow> (h', Some v)))
      in case dict_pop h1 config ''plugins'' of
           Inl err \<Rightarrow> Some (Inl err)
         | Inr (h2, plugins) \<Rightarrow>
             (case copy_for_languages depth all i18n_configs config plugins hooks h2 of
                None \<Rightarrow> None
              | Some (Inl err) \<Rightarrow> Some (Inl err)
              | Some (Inr h3) \<Rightarrow>
                  (case attach_shared h3 config plugins hooks of
                     Inl err \<Rightarrow> Some (Inl err)
                   | Inr h4 \<Rightarrow> Some (Inr h4))))"

text \<open>\<open>on_env\<close>: the configuration of every language gets the environment.\<close>

fun on_env :: "string list \<Rightarrow> addr \<Rightarrow> addr \<Rightarrow> heap \<Rightarrow> py_error + heap" where
  "on_env [] env i18n_configs h = Inr h"
| "on_env (language # rest) env i18n_configs h =
     (case language_setitem h i18n_configs language ''env'' env of
        Inl err \<Rightarrow> Inl err
      | Inr h1 \<Rightarrow> on_env rest env i18n_configs h1)"

text \<open>
  Notions for the statements about the store. A heap is closed when every address that
  an object holds is an address of the heap. An object is atomic when \<open>deepcopy\<close> hands
  it out as its own copy; only the others, lists and dicts, can be written to. The
  addresses that can be reached from an address are those that a chain of elements and
  values leads to.
\<close>

definition closed_heap :: "heap \<Rightarrow> bool" where
  "closed_heap h = list_all (\<lambda>obj. list_all (\<lambda>b. b < length h) (object_children obj)) h"

fun atomic :: "py_object \<Rightarrow> bool" where
  "atomic (OList xs) = False"
| "atomic (ODict items) = False"
| "atomic obj = True"

definition edges :: "heap \<Rightarrow> (addr \<times> addr) set" where
  "edges h = {(a, b). a < length h \<and> b \<in> set (object_children (h ! a))}"

definition reach :: "heap \<Rightarrow> addr \<Rightarrow> addr set" where
  "reach h a = (edges h)\<^sup>* `` {a}"

text \<open>
  What can be seen of the object at an address by following elements and values at most
  \<open>depth\<close> times: two addresses with the same view at every depth cannot be told apart
  by reading.
\<close>

datatype view_tree =
    Cut
  | Leaf py_object
  | ListNode "view_tree list"
  | DictNode "(string \<times> view_tree) list"

fun view :: "nat \<Rightarrow> heap \<Rightarrow> addr \<Rightarrow> view_tree" where
  "view 0 h a = Cut"
| "view (Suc depth) h a =
     (if a < length h then
        (case h ! a of
           OList xs \<Rightarrow> ListNode (map (view depth h) xs)
         | ODict items \<Rightarrow> DictNode (map (\<lambda>(k, v). (k, view depth h v)) items)
         | obj \<Rightarrow> Leaf obj)
      else Cut)"

text \<open>
  The fields of a configuration that are its own are those that are not shared: all but
  the plugins, the hooks and the environment. \<open>unshared h c\<close> is the store in which the
  configuration at \<open>c\<close> has only its own fields; what \<open>c\<close> reaches there, and the view
  of \<open>c\<close> there, are what belongs to this configuration.
\<close>

definition own_fields :: "(string \<times> addr) list \<Rightarrow> (string \<times> addr) list" where
  "own_fields items = filter (\<lambda>(k, v). k \<notin> {''plugins'', ''hooks'', ''env''}) items"

definition unshared :: "heap \<Rightarrow> addr \<Rightarrow> heap" where
  "unshared h c = (case h ! c of ODict items \<Rightarrow> h[c := ODict (own_fields items)] | _ \<Rightarrow> h)"

text \<open>
  For the proofs about \<open>deepcopy\<close>, relative to the number \<open>old\<close> of objects that the
  heap held when the copy began. \<open>copied\<close> says what the copy of an address is, given the
  memo; \<open>fresh_children\<close> that a new object holds only new objects and old atomic ones;
  \<open>copy_step\<close> what a run of \<open>deepcopy\<close> from heap \<open>h\<close> and memo \<open>m\<close> to \<open>h'\<close> and \<open>m'\<close>
  keeps and adds.
\<close>

definition copied :: "heap \<Rightarrow> (addr \<times> addr) list \<Rightarrow> addr \<Rightarrow> addr \<Rightarrow> bool" where
  "copied h m x y = (if atomic (h ! x) then y = x else map_of m x = Some y)"

definition fresh_children :: "nat \<Rightarrow> heap \<Rightarrow> addr \<Rightarrow> bool" where
  "fresh_children old h a =
     list_all (\<lambda>b. (b < old \<and> atomic (h ! b)) \<or> (old \<le> b \<and> b < length h))
       (object_children (h ! a))"

definition copy_step ::
  "nat \<Rightarrow> heap \<Rightarrow> (addr \<times> addr) list \<Rightarrow> heap \<Rightarrow> (addr \<times> addr) list \<Rightarrow> bool" where
  "copy_step old h m h' m' =
     (length h \<le> length h'
      \<and> (\<forall>a < length h. h' ! a = h ! a)
      \<and> (\<forall>a b. map_of m a = Some b \<longrightarrow> map_of m' a = Some b)
      \<and> (\<forall>a b. map_of m' a = Some b \<longrightarrow>
             map_of m a = Some b
             \<or> (a < old \<and> \<not> atomic (h ! a) \<and> length h \<le> b \<and> b < length h'))
      \<and> (\<forall>a. length h \<le> a \<and> a < length h' \<longrightarrow> fresh_children old h' a))"

definition old_closed :: "nat \<Rightarrow> heap \<Rightarrow> bool" where
  "old_closed old h =
     (old \<le> length h \<and> (\<forall>a < old. \<forall>b \<in> set (object_children (h ! a)). b < old))"

definition memo_fresh :: "nat \<Rightarrow> heap \<Rightarrow> (addr \<times> addr) list \<Rightarrow> bool" where
  "memo_fresh old h m =
     (\<forall>a b. map_of m a = Some b \<longrightarrow> a < old \<and> \<not> atomic (h ! a) \<and> old \<le> b \<and> b < length h)"

text \<open>
  Two objects are similar under a relation on addresses when they are the same atomic
  object, or lists whose elements are related in order, or dicts with the same keys in
  the same order whose values are related.
\<close>

fun similar :: "(addr \<Rightarrow> addr \<Rightarrow> bool) \<Rightarrow> py_object \<Rightarrow> py_object \<Rightarrow> bool" where
  "similar R (OList xs) (OList ys) = list_all2 R xs ys"
| "similar R (ODict items) (ODict items') =
     (map fst items = map fst items' \<and> list_all2 R (map snd items) (map snd items'))"
| "similar R obj obj' = (atomic obj \<and> obj' = obj)"

text \<open>
  The items of a dict after \<open>attach_shared\<close>: the plugins, and the hooks when there are
  hooks and they are truthy.
\<close>

definition attach_items ::
  "addr \<Rightarrow> addr option \<Rightarrow> (string \<times> addr) list \<Rightarrow> (string \<times> addr) list" where
  "attach_items plugins hooks items =
     (case hooks of
        None \<Rightarrow> AList.update ''plugins'' plugins items
      | Some a \<Rightarrow> AList.update ''hooks'' a (AList.update ''plugins'' plugins items))"

text \<open>
  A finished localized copy, for the proofs: the objects from address \<open>c\<close> up to \<open>e\<close> are
  the copy; they hold only objects of the copy and atomic objects, and the dict at
  \<open>c\<close> also the plugins and the hooks; a memo \<open>M\<close> relates the old objects to the objects
  of the copy, which are similar to them. \<open>old\<close> counts the objects that were there
  before the copies, \<open>popped\<close> are the items of the configuration without plugins and
  hooks.
\<close>

definition copy_ok ::
  "nat \<Rightarrow> addr \<Rightarrow> (string \<times> addr) list \<Rightarrow> addr \<Rightarrow> addr option \<Rightarrow> heap \<Rightarrow> addr \<Rightarrow> addr \<Rightarrow> bool"
where
  "copy_ok old config popped plugins hooks h c e =
     ((\<forall>a. c \<le> a \<and> a < e \<longrightarrow>
         (\<forall>b \<in> set (object_children (h ! a)).
            (b < c \<and> atomic (h ! b)) \<or> (c \<le> b \<and> b < e)
            \<or> (a = c \<and> (b = plugins \<or> hooks = Some b))))
      \<and> (\<exists>M items.
            h ! c = ODict (attach_items plugins hooks items)
            \<and> map_of M config = Some c
            \<and> similar (copied h M) (ODict popped) (ODict items)
            \<and> (\<forall>a b. map_of M a = Some b \<longrightarrow>
                   a < old \<and> c \<le> b \<and> b < e \<and> (b = c \<longrightarrow> a = config)
                   \<and> (a \<noteq> config \<longrightarrow> similar (copied h M) (h ! a) (h ! b)))))"

text \<open>
  All the copies made so far, for the proofs: \<open>copies\<close> gives the address of the copy
  of every language that has one; every one of them is a finished localized copy that
  ends at the address that \<open>E\<close> gives, and the copies of two languages do not overlap.
\<close>

definition copies_ok ::
  "nat \<Rightarrow> addr \<Rightarrow> (string \<times> addr) list \<Rightarrow> addr \<Rightarrow> addr option \<Rightarrow> heap
     \<Rightarrow> (string \<times> addr) list \<Rightarrow> (addr \<Rightarrow> addr) \<Rightarrow> bool" where
  "copies_ok old config popped plugins hooks h copies E =
     ((\<forall>l c. map_of copies l = Some c \<longrightarrow>
         old \<le> c \<and> c < E c \<and> E c \<le> length h
         \<and> copy_ok old config popped plugins hooks h c (E c))
      \<and> (\<forall>l c l' c'. map_of copies l = Some c \<and> map_of copies l' = Some c'
            \<and> l \<noteq> l' \<longrightarrow> E c \<le> c' \<or> E c' \<le> c))"

text \<open>
  For the proofs: the store \<open>g\<close> is the store \<open>H\<close> beside the object at \<open>r\<close> and beside
  the shared entries of the configurations at the addresses in \<open>roots\<close>.
\<close>

definition beside :: "addr \<Rightarrow> addr set \<Rightarrow> heap \<Rightarrow> heap \<Rightarrow> bool" where
  "beside r roots H g =
     (length g = length H
      \<and> (\<forall>a < length H. a \<noteq> r \<longrightarrow>
           (if a \<in> roots
            then \<exists>items items'. H ! a = ODict items \<and> g ! a = ODict items'
                   \<and> own_fields items' = own_fields items
            else g ! a = H ! a)))"

text \<open>
  For the examples: a store with a configuration at address 7. It has a site name, a
  theme (an object with a name), the plugins at address 1 and the hooks at address 3,
  which are the argument. The plugins are the search plugin and, at address 9, this
  plugin, whose \<open>i18n_configs\<close> is the empty dict at address 10. The object at address 8
  is the environment that \<open>on_env\<close> gets.
\<close>

definition site_store :: "py_object \<Rightarrow> heap" where
  "site_store hooks =
     [OStr ''My site'',
      ODict [(''search'', 2), (''i18n'', 9)],
      ODict [],
      hooks,
      OStr ''hook.py'',
      ODict [(''name'', 6)],
      OStr ''mkdocs'',
      ODict [(''site_name'', 0), (''theme'', 5), (''plugins'', 1), (''hooks'', 3)],
      ODict [],
      ODict [(''i18n_configs'', 10)],
      ODict []]"

section \<open>Properties of the search deduplicator\<close>

lemma startswith_iff:
  "startswith s ps \<longleftrightarrow> (\<exists>p \<in> set ps. \<exists>rest. s = p @ rest)"
  by (auto simp: startswith_def list_ex_iff prefix_def)

lemma filter_remove1_other:
  "\<not> P d \<Longrightarrow> filter P (remove1 d xs) = filter P xs"
  by (induction xs) auto

lemma remove_duplicated_keeps:
  "\<forall>d \<in> set ds. \<not> P d \<Longrightarrow> filter P (remove_duplicated ds idx) = filter P idx"
proof (induction ds arbitrary: idx)
  case Nil
  then show ?case by simp
next
  case (Cons d ds)
  then show ?case by (simp add: filter_remove1_other)
qed

lemma set_duplicated_entries:
  "set (duplicated_entries x targets) \<subseteq> set targets"
  by (auto simp: duplicated_entries_def)

text \<open>
  Whatever the position of the iterator, the loop leaves the entries that are not
  locale-scoped as they are, in order and number, as long as the materialised targets
  are locale-scoped.
\<close>

lemma default_lang_loop_keeps_default:
  assumes "\<forall>t \<in> set targets. target_lang langs t"
  shows "filter (\<lambda>x. \<not> target_lang langs x) (default_lang_loop langs targets idx i)
         = filter (\<lambda>x. \<not> target_lang langs x) idx"
  using assms
proof (induction langs targets idx i rule: default_lang_loop.induct)
  case (1 langs targets idx i)
  show ?case
  proof (cases "i < length idx")
    case False
    then show ?thesis by (subst default_lang_loop.simps) (simp add: Let_def)
  next
    case True
    show ?thesis
    proof (cases "target_lang langs (idx ! i)")
      case t: True
      with True 1 show ?thesis
        by (subst default_lang_loop.simps) (simp add: Let_def)
    next
      case f: False
      have d: "\<forall>d \<in> set (duplicated_entries (idx ! i) targets). \<not> \<not> target_lang langs d"
        using set_duplicated_entries [of "idx ! i" targets] "1.prems" by auto
      have "filter (\<lambda>x. \<not> target_lang langs x)
              (remove_duplicated (duplicated_entries (idx ! i) targets) idx)
            = filter (\<lambda>x. \<not> target_lang langs x) idx"
        by (rule remove_duplicated_keeps [OF d])
      with True f 1 show ?thesis
        by (subst default_lang_loop.simps) (simp add: Let_def)
    qed
  qed
qed

lemma mset_diff_split:
  fixes A B C :: "'a multiset"
  shows "A \<subseteq># B \<Longrightarrow> B \<subseteq># C \<Longrightarrow> C - A = (C - B) + (B - A)"
  by simp

lemma mset_remove_duplicated:
  "mset (remove_duplicated ds idx) \<subseteq># mset idx
   \<and> mset idx - mset (remove_duplicated ds idx) \<subseteq># mset ds"
proof (induction ds arbitrary: idx)
  case Nil
  show ?case by simp
next
  case (Cons d ds)
  show ?case
  proof (cases "d \<in> set idx")
    case False
    with Cons.IH [of idx] show ?thesis
      by (auto intro: subset_mset.order_trans)
  next
    case True
    let ?idx1 = "remove1 d idx"
    let ?R = "mset (remove_duplicated ds ?idx1)"
    have m1: "mset idx = mset ?idx1 + {#d#}" using True by simp
    have ih: "?R \<subseteq># mset ?idx1" "mset ?idx1 - ?R \<subseteq># mset ds"
      using Cons.IH [of ?idx1] by auto
    have a: "?R \<subseteq># mset idx"
      using ih(1) m1 by (metis mset_subset_eq_add_left subset_mset.order_trans)
    have "mset idx - ?R = (mset ?idx1 - ?R) + {#d#}"
      using ih(1) unfolding m1 by (metis subset_mset.add_diff_assoc2)
    then have b: "mset idx - ?R \<subseteq># mset (d # ds)"
      using ih(2) by simp
    from a b True show ?thesis by simp
  qed
qed

text \<open>
  The loop only ever removes: what is left is a sub-multiset of the index, and every
  entry it removed is one of the targets and has the title and text of an entry of the
  index that is not locale-scoped.
\<close>

lemma default_lang_loop_removes_duplicates_only:
  "mset (default_lang_loop langs targets idx i) \<subseteq># mset idx
   \<and> (\<forall>x. x \<in># mset idx - mset (default_lang_loop langs targets idx i) \<longrightarrow>
          x \<in> set targets
          \<and> (\<exists>d \<in> set idx. \<not> target_lang langs d \<and> title x = title d \<and> text' x = text' d))"
proof (induction langs targets idx i rule: default_lang_loop.induct)
  case (1 langs targets idx i)
  show ?case
  proof (cases "i < length idx")
    case False
    then show ?thesis by (subst (1 2) default_lang_loop.simps) simp
  next
    case True
    show ?thesis
    proof (cases "target_lang langs (idx ! i)")
      case t: True
      have eq: "default_lang_loop langs targets idx i
                = default_lang_loop langs targets idx (Suc i)"
        using True t by (subst default_lang_loop.simps) (simp add: Let_def)
      show ?thesis unfolding eq using "1.IH"(1) [OF True refl t] .
    next
      case f: False
      let ?ds = "duplicated_entries (idx ! i) targets"
      let ?idx1 = "remove_duplicated ?ds idx"
      let ?res = "default_lang_loop langs targets ?idx1 (Suc i)"
      have eq: "default_lang_loop langs targets idx i = ?res"
        using True f by (subst default_lang_loop.simps) (simp add: Let_def)
      have ih: "mset ?res \<subseteq># mset ?idx1"
        "\<And>x. x \<in># mset ?idx1 - mset ?res \<Longrightarrow>
           x \<in> set targets
           \<and> (\<exists>d \<in> set ?idx1. \<not> target_lang langs d \<and> title x = title d
                  \<and> text' x = text' d)"
        using "1.IH"(2) [OF True refl f] by auto
      have rd: "mset ?idx1 \<subseteq># mset idx" "mset idx - mset ?idx1 \<subseteq># mset ?ds"
        using mset_remove_duplicated [of ?ds idx] by auto
      have sub: "set ?idx1 \<subseteq> set idx"
        using rd(1) by (metis set_mset_mono set_mset_mset)
      have split: "mset idx - mset ?res = (mset idx - mset ?idx1) + (mset ?idx1 - mset ?res)"
        by (rule mset_diff_split [OF ih(1) rd(1)])
      have "x \<in> set targets
           \<and> (\<exists>d \<in> set idx. \<not> target_lang langs d \<and> title x = title d \<and> text' x = text' d)"
        if "x \<in># mset idx - mset ?res" for x
      proof -
        from that split
        consider "x \<in># mset idx - mset ?idx1" | "x \<in># mset ?idx1 - mset ?res"
          by auto
        then show ?thesis
        proof cases
          case 1
          then have "x \<in> set ?ds" using rd(2) by (metis mset_subset_eqD set_mset_mset)
          then have "x \<in> set targets" "title x = title (idx ! i)" "text' x = text' (idx ! i)"
            by (auto simp: duplicated_entries_def)
          moreover have "idx ! i \<in> set idx" using True by simp
          ultimately show ?thesis using f by blast
        next
          case 2
          from ih(2) [OF 2] sub show ?thesis by blast
        qed
      qed
      moreover have "mset ?res \<subseteq># mset idx"
        using ih(1) rd(1) by (rule subset_mset.order_trans)
      ultimately show ?thesis unfolding eq by blast
    qed
  qed
qed

lemma fix_search_duplicates_Some:
  "fix_search_duplicates langs (Some idx)
   = Some (default_lang_loop langs (filter (target_lang langs) idx) idx 0)"
  by (simp add: fix_search_duplicates_def)

text \<open>
  For the whole function: no entry that is not locale-scoped is ever removed, and an
  entry is removed only if it is locale-scoped and an entry of the index that is not
  locale-scoped has its title and its text.
\<close>

lemma fix_search_duplicates_keeps_default:
  assumes "fix_search_duplicates langs (Some idx) = Some res"
  shows "filter (\<lambda>x. \<not> target_lang langs x) res = filter (\<lambda>x. \<not> target_lang langs x) idx"
proof -
  have t: "\<forall>t \<in> set (filter (target_lang langs) idx). target_lang langs t" by simp
  have "res = default_lang_loop langs (filter (target_lang langs) idx) idx 0"
    using assms unfolding fix_search_duplicates_Some by simp
  then show ?thesis
    using default_lang_loop_keeps_default [OF t, of idx 0] by simp
qed


lemma fix_search_duplicates_removes_duplicates_only:
  assumes "fix_search_duplicates langs (Some idx) = Some res"
    and "x \<in># mset idx - mset res"
  shows "target_lang langs x
         \<and> (\<exists>d \<in> set idx. \<not> target_lang langs d \<and> title x = title d \<and> text' x = text' d)"
proof -
  let ?targets = "filter (target_lang langs) idx"
  have res: "res = default_lang_loop langs ?targets idx 0"
    using assms(1) unfolding fix_search_duplicates_Some by simp
  have "x \<in> set ?targets
        \<and> (\<exists>d \<in> set idx. \<not> target_lang langs d \<and> title x = title d \<and> text' x = text' d)"
    using default_lang_loop_removes_duplicates_only [of langs ?targets idx 0] assms(2)
    unfolding res by blast
  then show ?thesis by simp
qed

text \<open>
  C1 (the code differs). The index holds a page \<open>friends/\<close> with the title and text of
  the page \<open>about/\<close>, then \<open>guide/\<close> and its French build \<open>fr/guide/\<close> with the same
  title and text; the locales are \<open>fr\<close> and \<open>en\<close>. \<open>guide/\<close> is not locale-scoped and
  \<open>fr/guide/\<close> is, so the claim has \<open>fr/guide/\<close> removed. The run removes \<open>friends/\<close>
  while the iterator stands behind \<open>about/\<close>; the list shifts left under the iterator,
  which then steps over \<open>guide/\<close>, and \<open>fr/guide/\<close> stays in the index.
\<close>

theorem fix_search_duplicates_steps_over_entry:
  "fix_search_duplicates [''fr'', ''en'']
     (Some [\<lparr>title = ''Friends'', location = ''friends/'', text' = ''Hello''\<rparr>,
            \<lparr>title = ''Friends'', location = ''about/'', text' = ''Hello''\<rparr>,
            \<lparr>title = ''Guide'', location = ''guide/'', text' = ''Read me''\<rparr>,
            \<lparr>title = ''Guide'', location = ''fr/guide/'', text' = ''Read me''\<rparr>])
   = Some [\<lparr>title = ''Friends'', location = ''about/'', text' = ''Hello''\<rparr>,
           \<lparr>title = ''Guide'', location = ''guide/'', text' = ''Read me''\<rparr>,
           \<lparr>title = ''Guide'', location = ''fr/guide/'', text' = ''Read me''\<rparr>]"
  by (simp add: fix_search_duplicates_def target_lang_def startswith_def
        duplicated_entries_def default_lang_loop.simps)


text \<open>
  C10. An entry is locale-scoped exactly when its location is a configured locale
  identifier followed by any characters at all, a path separator or not. So an entry
  whose location only begins with the letters of a locale code is removed as the
  duplicate of an entry that is not locale-scoped and has its title and text.
\<close>

theorem target_lang_is_raw_prefix:
  "(target_lang langs x \<longleftrightarrow> (\<exists>l \<in> set langs. \<exists>rest. location x = l @ rest))
   \<and> (l \<in> set langs \<and> location x = l @ rest \<and> \<not> target_lang langs d
        \<and> title x = title d \<and> text' x = text' d
      \<longrightarrow> fix_search_duplicates langs (Some [d, x]) = Some [d])"
proof (intro conjI impI)
  show "target_lang langs x \<longleftrightarrow> (\<exists>l \<in> set langs. \<exists>rest. location x = l @ rest)"
    by (simp add: target_lang_def startswith_iff)
next
  assume a: "l \<in> set langs \<and> location x = l @ rest \<and> \<not> target_lang langs d
               \<and> title x = title d \<and> text' x = text' d"
  then have tx: "target_lang langs x"
    by (auto simp: target_lang_def startswith_iff)
  from a have xd: "x \<noteq> d" using tx by auto
  have dup: "duplicated_entries d [x] = [x]"
    using a by (simp add: duplicated_entries_def)
  have "default_lang_loop langs [x] [d, x] 0 = default_lang_loop langs [x] [d] (Suc 0)"
    using a xd dup by (subst default_lang_loop.simps) (simp add: Let_def)
  also have "\<dots> = [d]"
    by (subst default_lang_loop.simps) simp
  finally show "fix_search_duplicates langs (Some [d, x]) = Some [d]"
    using a tx by (simp add: fix_search_duplicates_def)
qed

theorem target_lang_is_raw_prefix_witness:
  "target_lang [''fr'', ''en''] \<lparr>title = ''Friends'', location = ''friends/'', text' = ''Hello''\<rparr>
   \<and> \<not> target_lang [''fr'', ''en'']
         \<lparr>title = ''Friends'', location = ''about/'', text' = ''Hello''\<rparr>
   \<and> fix_search_duplicates [''fr'', ''en'']
        (Some [\<lparr>title = ''Friends'', location = ''about/'', text' = ''Hello''\<rparr>,
               \<lparr>title = ''Friends'', location = ''friends/'', text' = ''Hello''\<rparr>])
      = Some [\<lparr>title = ''Friends'', location = ''about/'', text' = ''Hello''\<rparr>]"
proof -
  let ?d = "\<lparr>title = ''Friends'', location = ''about/'', text' = ''Hello''\<rparr>"
  let ?x = "\<lparr>title = ''Friends'', location = ''friends/'', text' = ''Hello''\<rparr>"
  have nd: "\<not> target_lang [''fr'', ''en''] ?d"
    by (simp add: target_lang_def startswith_def)
  have hyp: "''fr'' \<in> set [''fr'', ''en''] \<and> location ?x = ''fr'' @ ''iends/''
             \<and> \<not> target_lang [''fr'', ''en''] ?d
             \<and> title ?x = title ?d \<and> text' ?x = text' ?d"
    using nd by simp
  from target_lang_is_raw_prefix [of "[''fr'', ''en'']" ?x "''fr''" "''iends/''" ?d] hyp nd
  show ?thesis by blast
qed

section \<open>Properties of the navigation title translation\<close>

lemma translated_item_empty: "translated_item [] x = x"
  by (induction x) (auto split: option.splits simp: map_idI)

lemma maybe_translate_titles_items_aux:
  "snd (maybe_translate_titles nt language items)
     = map (translated_item (get_translated_nav nt language)) items"
  "tn = get_translated_nav nt language \<Longrightarrow>
   snd (translate_items nt language tn b items) = map (translated_item tn) items"
proof (induction nt language items and nt language tn b items
       rule: maybe_translate_titles_translate_items.induct)
  case (1 nt language items)
  show ?case
  proof (cases "get_translated_nav nt language = []")
    case True
    then show ?thesis by (simp add: translated_item_empty)
  next
    case False
    with 1 show ?thesis by (simp add: Let_def)
  qed
next
  case (2 nt language tn b)
  show ?case by simp
next
  case (3 nt language tn b t cs items)
  then show ?case
    by (auto simp: Let_def split: prod.splits option.splits)
qed

text \<open>
  The items after the call: every item, at every depth, has its title looked up once in
  the table of the locale.
\<close>

lemma maybe_translate_titles_items:
  "snd (maybe_translate_titles nt language items)
     = map (translated_item (get_translated_nav nt language)) items"
  by (rule maybe_translate_titles_items_aux(1))

lemma translated_item_twice:
  assumes "\<forall>s s'. map_of tn s = Some s' \<longrightarrow> map_of tn s' = None \<or> map_of tn s' = Some s'"
  shows "translated_item tn (translated_item tn x) = translated_item tn x"
proof (induction x)
  case (NavItem t cs)
  have title: "(case (case t of None \<Rightarrow> None
                      | Some s \<Rightarrow> (case map_of tn s of None \<Rightarrow> Some s | Some s' \<Rightarrow> Some s')) of
                 None \<Rightarrow> None
               | Some s \<Rightarrow> (case map_of tn s of None \<Rightarrow> Some s | Some s' \<Rightarrow> Some s'))
             = (case t of None \<Rightarrow> None
                | Some s \<Rightarrow> (case map_of tn s of None \<Rightarrow> Some s | Some s' \<Rightarrow> Some s'))"
  proof (cases t)
    case None
    then show ?thesis by simp
  next
    case (Some s)
    show ?thesis
    proof (cases "map_of tn s")
      case None
      with Some show ?thesis by simp
    next
      case s': (Some s')
      with assms have "map_of tn s' = None \<or> map_of tn s' = Some s'" by blast
      with Some s' show ?thesis by auto
    qed
  qed
  from NavItem title show ?case by simp
qed

text \<open>
  C6, as amended. For a table in which no translation is itself a title that the table
  translates to something else, translating the titles twice gives the items that
  translating them once gives.
\<close>

theorem maybe_translate_titles_idempotent:
  assumes "\<forall>s s'. map_of (get_translated_nav nt language) s = Some s' \<longrightarrow>
             map_of (get_translated_nav nt language) s' = None
             \<or> map_of (get_translated_nav nt language) s' = Some s'"
  shows "snd (maybe_translate_titles nt language (snd (maybe_translate_titles nt language items)))
         = snd (maybe_translate_titles nt language items)"
  unfolding maybe_translate_titles_items
  using translated_item_twice [OF assms] by simp

theorem maybe_translate_titles_idempotent_witness:
  "snd (maybe_translate_titles [(''fr'', [(''Home'', ''Accueil'')])] ''fr''
          (snd (maybe_translate_titles [(''fr'', [(''Home'', ''Accueil'')])] ''fr''
                  [NavItem (Some ''Home'') [NavItem (Some ''Topic'') []]])))
   = snd (maybe_translate_titles [(''fr'', [(''Home'', ''Accueil'')])] ''fr''
            [NavItem (Some ''Home'') [NavItem (Some ''Topic'') []]])
   \<and> snd (maybe_translate_titles [(''fr'', [(''Home'', ''Accueil'')])] ''fr''
            [NavItem (Some ''Home'') [NavItem (Some ''Topic'') []]])
     = [NavItem (Some ''Accueil'') [NavItem (Some ''Topic'') []]]"
proof -
  have hyp: "\<forall>s s'. map_of (get_translated_nav [(''fr'', [(''Home'', ''Accueil'')])] ''fr'') s
                       = Some s' \<longrightarrow>
             map_of (get_translated_nav [(''fr'', [(''Home'', ''Accueil'')])] ''fr'') s' = None
             \<or> map_of (get_translated_nav [(''fr'', [(''Home'', ''Accueil'')])] ''fr'') s'
                 = Some s'"
    by (simp add: get_translated_nav_def)
  have val: "snd (maybe_translate_titles [(''fr'', [(''Home'', ''Accueil'')])] ''fr''
                    [NavItem (Some ''Home'') [NavItem (Some ''Topic'') []]])
             = [NavItem (Some ''Accueil'') [NavItem (Some ''Topic'') []]]"
    by (simp add: get_translated_nav_def)
  from maybe_translate_titles_idempotent [OF hyp] val show ?thesis by blast
qed

text \<open>
  C6, as stated, fails: with \<open>Guide\<close> translated to \<open>Manuel\<close> and \<open>Manuel\<close> to
  \<open>Livret\<close>, the first call leaves the title \<open>Manuel\<close> and the second \<open>Livret\<close>.
\<close>

theorem maybe_translate_titles_not_idempotent:
  "snd (maybe_translate_titles [(''fr'', [(''Guide'', ''Manuel''), (''Manuel'', ''Livret'')])] ''fr''
          [NavItem (Some ''Guide'') []]) = [NavItem (Some ''Manuel'') []]
   \<and> snd (maybe_translate_titles [(''fr'', [(''Guide'', ''Manuel''), (''Manuel'', ''Livret'')])] ''fr''
            (snd (maybe_translate_titles
                    [(''fr'', [(''Guide'', ''Manuel''), (''Manuel'', ''Livret'')])] ''fr''
                    [NavItem (Some ''Guide'') []]))) = [NavItem (Some ''Livret'') []]
   \<and> snd (maybe_translate_titles [(''fr'', [(''Guide'', ''Manuel''), (''Manuel'', ''Livret'')])] ''fr''
            (snd (maybe_translate_titles
                    [(''fr'', [(''Guide'', ''Manuel''), (''Manuel'', ''Livret'')])] ''fr''
                    [NavItem (Some ''Guide'') []])))
       \<noteq> snd (maybe_translate_titles
                 [(''fr'', [(''Guide'', ''Manuel''), (''Manuel'', ''Livret'')])] ''fr''
                 [NavItem (Some ''Guide'') []])"
  by (simp add: get_translated_nav_def)

text \<open>
  The condition on the table is the weakest one: when a translation is a title that the
  table translates to something else, a one-item navigation shows the difference.
\<close>

lemma maybe_translate_titles_idempotent_only_if:
  assumes "\<forall>items. snd (maybe_translate_titles nt language
                            (snd (maybe_translate_titles nt language items)))
                     = snd (maybe_translate_titles nt language items)"
    and "map_of (get_translated_nav nt language) s = Some s'"
  shows "map_of (get_translated_nav nt language) s' = None
         \<or> map_of (get_translated_nav nt language) s' = Some s'"
proof -
  from assms(1) have
    "translated_item (get_translated_nav nt language)
       (translated_item (get_translated_nav nt language) (NavItem (Some s) []))
     = translated_item (get_translated_nav nt language) (NavItem (Some s) [])"
    unfolding maybe_translate_titles_items
    by (metis list.inject list.simps(9))
  with assms(2) show ?thesis
    by (auto split: option.splits)
qed

section \<open>Properties of the locale registry\<close>

lemma keys_delete: "map fst (AList.delete k al) = filter (\<lambda>k'. k' \<noteq> k) (map fst al)"
  by (induction al) auto

lemma keys_update_new:
  "k \<notin> set (map fst al) \<Longrightarrow> map fst (AList.update k v al) = map fst al @ [k]"
  by (induction al) auto

lemma update_new:
  "k \<notin> set (map fst al) \<Longrightarrow> AList.update k v al = al @ [(k, v)]"
  by (induction al) auto

lemma keys_fill_site_name:
  "map fst (map (\<lambda>(language, lang_config). (language, f lang_config)) al) = map fst al"
  by (induction al) auto

text \<open>
  The mapping that \<open>_set_languages_options\<close> leaves: the configured entries without the
  \<open>"default"\<close> key, and after them the synthesized entry of the default locale when it
  has none.
\<close>

lemma languages_set_languages_options:
  "languages (set_languages_options sn self) =
     (let languages2 =
            AList.delete ''default''
              (map (\<lambda>(language, lang_config).
                      (language, lang_config\<lparr>site_name := py_or (site_name lang_config) sn\<rparr>))
                 (languages self))
      in if default_language self \<notin> set (map fst languages2)
         then AList.update (default_language self)
                \<lparr>name = name (default_language_options (set_languages_options sn self)),
                 link = ''./'', fixed_link = None, build = (length languages2 = 0),
                 site_name = sn\<rparr> languages2
         else languages2)"
  by (simp add: set_languages_options_def Let_def)

lemma keys_set_languages_options:
  "map fst (languages (set_languages_options sn self)) =
     (let configured = filter (\<lambda>k. k \<noteq> ''default'') (map fst (languages self))
      in if default_language self \<in> set configured then configured
         else configured @ [default_language self])"
proof -
  let ?l2 = "AList.delete ''default''
              (map (\<lambda>(language, lang_config).
                      (language, lang_config\<lparr>site_name := py_or (site_name lang_config) sn\<rparr>))
                 (languages self))"
  have k2: "map fst ?l2 = filter (\<lambda>k. k \<noteq> ''default'') (map fst (languages self))"
    by (simp only: keys_delete keys_fill_site_name)
  show ?thesis
  proof (cases "default_language self \<in> set (map fst ?l2)")
    case True
    then show ?thesis
      unfolding languages_set_languages_options Let_def using k2 by simp
  next
    case False
    then show ?thesis
      unfolding languages_set_languages_options Let_def
      using k2 keys_update_new [OF False] by simp
  qed
qed

lemma collect_languages_distinct:
  "distinct (all @ ks) \<Longrightarrow> collect_languages ks all = all @ ks"
  by (induction ks arbitrary: all) auto

lemma collect_languages_props:
  "distinct all \<Longrightarrow> distinct (collect_languages ks all)
     \<and> set (collect_languages ks all) = set all \<union> set ks"
  by (induction ks arbitrary: all) auto

text \<open>
  C2. When the default locale is not a key of the configured mapping,
  \<open>_set_languages_options\<close> adds an entry for it, after the configured ones, and the
  build flag of that entry says whether the mapping holds no locale, that is no key but
  the reserved \<open>"default"\<close>.
\<close>

theorem set_languages_options_synthesizes_default:
  assumes "default_language self \<notin> set (map fst (languages self))"
  shows "\<exists>options.
           map_of (languages (set_languages_options sn self)) (default_language self)
             = Some options
           \<and> last (languages (set_languages_options sn self))
             = (default_language self, options)
           \<and> link options = ''./'' \<and> fixed_link options = None \<and> site_name options = sn
           \<and> name options = name (default_language_options (set_languages_options sn self))
           \<and> build options = (set (map fst (languages self)) \<subseteq> {''default''})
           \<and> (''default'' \<notin> set (map fst (languages self))
                \<longrightarrow> build options = (languages self = []))"
proof -
  let ?l2 = "AList.delete ''default''
              (map (\<lambda>(language, lang_config).
                      (language, lang_config\<lparr>site_name := py_or (site_name lang_config) sn\<rparr>))
                 (languages self))"
  let ?options = "\<lparr>name = name (default_language_options (set_languages_options sn self)),
                    link = ''./'', fixed_link = None, build = (length ?l2 = 0),
                    site_name = sn\<rparr>"
  have k2: "map fst ?l2 = filter (\<lambda>k. k \<noteq> ''default'') (map fst (languages self))"
    by (simp only: keys_delete keys_fill_site_name)
  have notin: "default_language self \<notin> set (map fst ?l2)"
    unfolding k2 using assms by simp
  have l3: "languages (set_languages_options sn self)
            = AList.update (default_language self) ?options ?l2"
    unfolding languages_set_languages_options Let_def using notin by simp
  have upd: "AList.update (default_language self) ?options ?l2
             = ?l2 @ [(default_language self, ?options)]"
    using notin by (rule update_new)
  have empty: "(length ?l2 = 0) = (set (map fst (languages self)) \<subseteq> {''default''})"
  proof -
    have "(length ?l2 = 0) = (map fst ?l2 = [])" by simp
    also have "\<dots> = (set (map fst (languages self)) \<subseteq> {''default''})"
      unfolding k2 by (auto simp: filter_empty_conv)
    finally show ?thesis .
  qed
  have "map_of (languages (set_languages_options sn self)) (default_language self)
        = Some ?options"
    unfolding l3 by (simp add: update_conv')
  moreover have "last (languages (set_languages_options sn self))
                 = (default_language self, ?options)"
    unfolding l3 upd by simp
  moreover have "build ?options = (set (map fst (languages self)) \<subseteq> {''default''})"
    using empty by simp
  moreover have "''default'' \<notin> set (map fst (languages self))
                 \<longrightarrow> build ?options = (languages self = [])"
    using empty by (cases "languages self") auto
  ultimately show ?thesis by simp
qed


theorem set_languages_options_synthesizes_default_witness:
  "default_language (I18n ''en'' [built_locale ''fr'' ''francais''])
     \<notin> set (map fst (languages (I18n ''en'' [built_locale ''fr'' ''francais''])))
   \<and> (\<exists>options.
         map_of (languages (set_languages_options (Some ''Site'')
                   (I18n ''en'' [built_locale ''fr'' ''francais'']))) ''en'' = Some options
         \<and> build options = False)
   \<and> default_language (I18n ''en'' []) \<notin> set (map fst (languages (I18n ''en'' [])))
   \<and> (\<exists>options.
         map_of (languages (set_languages_options (Some ''Site'') (I18n ''en'' []))) ''en''
           = Some options
         \<and> build options = True)"
proof -
  let ?self = "I18n ''en'' [built_locale ''fr'' ''francais'']"
  let ?none = "I18n ''en'' []"
  have hyp: "default_language ?self \<notin> set (map fst (languages ?self))"
    by (simp add: I18n_def built_locale_def)
  have hyp0: "default_language ?none \<notin> set (map fst (languages ?none))"
    by (simp add: I18n_def)
  from set_languages_options_synthesizes_default [OF hyp, of "Some ''Site''"]
  obtain options where
    "map_of (languages (set_languages_options (Some ''Site'') ?self)) (default_language ?self)
       = Some options"
    "build options = (set (map fst (languages ?self)) \<subseteq> {''default''})"
    by blast
  then have a: "\<exists>options. map_of (languages (set_languages_options (Some ''Site'') ?self)) ''en''
                   = Some options \<and> build options = False"
    by (simp add: I18n_def built_locale_def)
  from set_languages_options_synthesizes_default [OF hyp0, of "Some ''Site''"]
  obtain options0 where
    "map_of (languages (set_languages_options (Some ''Site'') ?none)) (default_language ?none)
       = Some options0"
    "build options0 = (set (map fst (languages ?none)) \<subseteq> {''default''})"
    by blast
  then have b: "\<exists>options. map_of (languages (set_languages_options (Some ''Site'') ?none)) ''en''
                   = Some options \<and> build options = True"
    by (simp add: I18n_def)
  from hyp a hyp0 b show ?thesis by blast
qed

lemma all_languages_make_all_languages:
  assumes "distinct (map fst (languages self))"
  shows "all_languages (make_all_languages self) =
           (if default_language self \<in> set (map fst (languages self))
            then map fst (languages self)
            else default_language self # map fst (languages self))"
  using collect_languages_distinct [of "[]" "map fst (languages self)"] assms
  by (simp add: make_all_languages_def Let_def)

lemma all_languages_on_config:
  "all_languages (fst (on_config sn search self))
     = all_languages (make_all_languages (set_languages_options sn self))"
  by (simp add: on_config_def Let_def check_nav_translations_def split: prod.splits)

text \<open>
  What the list holds when the keys of the configured mapping are distinct, as the keys
  of a dict are: the keys that \<open>_set_languages_options\<close> left, in their order.
\<close>

lemma all_languages_are_keys:
  assumes "distinct (map fst (languages self))"
  shows "all_languages (fst (on_config sn search self))
         = map fst (languages (set_languages_options sn self))"
proof -
  let ?self1 = "set_languages_options sn self"
  have d: "distinct (map fst (languages ?self1))"
    unfolding keys_set_languages_options Let_def using assms by (simp add: distinct_filter)
  have dl: "default_language ?self1 = default_language self"
    by (simp add: set_languages_options_def Let_def)
  have "default_language self \<in> set (map fst (languages ?self1))"
    unfolding keys_set_languages_options Let_def by simp
  with all_languages_make_all_languages [OF d] dl show ?thesis
    unfolding all_languages_on_config by simp
qed

text \<open>
  C3, as amended. The list holds every locale once, the default locale among them. The
  locales other than the default one follow the insertion order of the configured
  mapping (the reserved key \<open>"default"\<close> is not a locale). A default locale that is a key
  of the configured mapping stands where it was configured, so it is first only when it
  is the first key; it is the only element when no locale is configured.
\<close>

theorem all_languages_order:
  assumes "distinct (map fst (languages self))"
  shows "distinct (all_languages (fst (on_config sn search self)))
         \<and> default_language self \<in> set (all_languages (fst (on_config sn search self)))
         \<and> filter (\<lambda>l. l \<noteq> default_language self)
               (all_languages (fst (on_config sn search self)))
             = filter (\<lambda>l. l \<noteq> default_language self)
                 (filter (\<lambda>k. k \<noteq> ''default'') (map fst (languages self)))
         \<and> (default_language self
                \<in> set (filter (\<lambda>k. k \<noteq> ''default'') (map fst (languages self)))
              \<longrightarrow> all_languages (fst (on_config sn search self))
                    = filter (\<lambda>k. k \<noteq> ''default'') (map fst (languages self)))
         \<and> (filter (\<lambda>k. k \<noteq> ''default'') (map fst (languages self)) = []
              \<longrightarrow> all_languages (fst (on_config sn search self)) = [default_language self])"
proof -
  define configured where
    "configured = filter (\<lambda>k. k \<noteq> ''default'') (map fst (languages self))"
  define all where "all = all_languages (fst (on_config sn search self))"
  have al: "all = (if default_language self \<in> set configured then configured
                   else configured @ [default_language self])"
    unfolding all_def configured_def all_languages_are_keys [OF assms]
      keys_set_languages_options Let_def ..
  have d: "distinct configured"
    unfolding configured_def using assms by (simp add: distinct_filter)
  have "distinct all \<and> default_language self \<in> set all
        \<and> filter (\<lambda>l. l \<noteq> default_language self) all
            = filter (\<lambda>l. l \<noteq> default_language self) configured
        \<and> (default_language self \<in> set configured \<longrightarrow> all = configured)
        \<and> (configured = [] \<longrightarrow> all = [default_language self])"
  proof (cases "default_language self \<in> set configured")
    case True
    then have "configured \<noteq> []" by (cases configured) simp_all
    with al d True show ?thesis by simp
  next
    case False
    with al d show ?thesis by simp
  qed
  then show ?thesis unfolding all_def configured_def .
qed

theorem all_languages_order_witness:
  "distinct (map fst (languages (I18n ''en'' [built_locale ''en'' ''english'',
                                             built_locale ''fr'' ''francais''])))
   \<and> all_languages (fst (on_config (Some ''Site'') None
         (I18n ''en'' [built_locale ''en'' ''english'', built_locale ''fr'' ''francais''])))
     = [''en'', ''fr'']"
proof -
  let ?self = "I18n ''en'' [built_locale ''en'' ''english'', built_locale ''fr'' ''francais'']"
  have hyp: "distinct (map fst (languages ?self))"
    by (simp add: I18n_def built_locale_def)
  have "default_language ?self
          \<in> set (filter (\<lambda>k. k \<noteq> ''default'') (map fst (languages ?self)))"
    by (simp add: I18n_def built_locale_def)
  with all_languages_order [OF hyp, of "Some ''Site''" None]
  have "all_languages (fst (on_config (Some ''Site'') None ?self))
        = filter (\<lambda>k. k \<noteq> ''default'') (map fst (languages ?self))"
    by blast
  then have "all_languages (fst (on_config (Some ''Site'') None ?self)) = [''en'', ''fr'']"
    by (simp add: I18n_def built_locale_def)
  with hyp show ?thesis by blast
qed

text \<open>
  C3, as stated, fails on the configuration of \<open>tests/test_search.py\<close>: the locales
  \<open>fr\<close> and \<open>en\<close>, in this order, with \<open>en\<close> the default locale. The list keeps the
  configured order and its first element is \<open>fr\<close>.
\<close>

theorem all_languages_default_not_first:
  "all_languages (fst (on_config (Some ''Site'') None
      (I18n ''en'' [built_locale ''fr'' ''francais'', built_locale ''en'' ''english''])))
   = [''fr'', ''en'']
   \<and> hd (all_languages (fst (on_config (Some ''Site'') None
          (I18n ''en'' [built_locale ''fr'' ''francais'', built_locale ''en'' ''english'']))))
     \<noteq> default_language
          (I18n ''en'' [built_locale ''fr'' ''francais'', built_locale ''en'' ''english''])"
  by (simp add: on_config_def make_all_languages_def set_languages_options_def I18n_def
        built_locale_def py_or_def check_nav_translations_def reconfigure_search_def Let_def)

section \<open>Properties of \<open>on_config\<close>: search languages and navigation translations\<close>

lemma distinct_all_languages:
  "distinct (all_languages (make_all_languages self))"
  using collect_languages_props [of "[]" "map fst (languages self)"]
  by (simp add: make_all_languages_def Let_def)

text \<open>
  The loop over distinct languages: the supported languages that are not listed yet are
  appended in their order; a language that is not supported is logged and left out.
\<close>

lemma search_langs_loop_distinct:
  "distinct ls \<Longrightarrow>
   search_langs_loop ls search_langs log =
     (search_langs @ filter (\<lambda>l. l \<in> set LUNR_LANGUAGES \<and> l \<notin> set search_langs) ls,
      log @ map (\<lambda>l. if l \<in> set LUNR_LANGUAGES then Info_adding_search_lang l
                        else Warning_not_supported_by_lunr l)
              (filter (\<lambda>l. l \<notin> set LUNR_LANGUAGES \<or> l \<notin> set search_langs) ls))"
proof (induction ls arbitrary: search_langs log)
  case Nil
  show ?case by simp
next
  case (Cons l ls)
  from Cons.prems have d: "distinct ls" and n: "l \<notin> set ls" by simp_all
  have f1: "filter (\<lambda>x. x \<in> set LUNR_LANGUAGES \<and> x \<notin> set (search_langs @ [l])) ls
            = filter (\<lambda>x. x \<in> set LUNR_LANGUAGES \<and> x \<notin> set search_langs) ls"
    using n by (intro filter_cong) auto
  have f2: "filter (\<lambda>x. x \<notin> set LUNR_LANGUAGES \<or> x \<notin> set (search_langs @ [l])) ls
            = filter (\<lambda>x. x \<notin> set LUNR_LANGUAGES \<or> x \<notin> set search_langs) ls"
    using n by (intro filter_cong) auto
  show ?case
  proof (cases "l \<in> set LUNR_LANGUAGES")
    case False
    then show ?thesis using Cons.IH [OF d] by simp
  next
    case True
    show ?thesis
    proof (cases "l \<in> set search_langs")
      case in_langs: True
      with True show ?thesis using Cons.IH [OF d] by simp
    next
      case False
      with True show ?thesis
        using Cons.IH [OF d, of "search_langs @ [l]"] f1 f2 by simp
    qed
  qed
qed


lemma options_after_languages:
  "default_language_only (make_all_languages (set_languages_options sn self))
     = default_language_only self"
  "search_reconfigure (make_all_languages (set_languages_options sn self))
     = search_reconfigure self"
  "nav_translations (make_all_languages (set_languages_options sn self))
     = nav_translations self"
  "languages (make_all_languages (set_languages_options sn self))
     = languages (set_languages_options sn self)"
  by (simp_all add: make_all_languages_def set_languages_options_def Let_def)

lemma languages_on_config:
  "languages (fst (on_config sn search self)) = languages (set_languages_options sn self)"
  by (simp add: on_config_def Let_def check_nav_translations_def options_after_languages
        split: prod.splits)

lemma on_config_builds:
  assumes "\<not> default_language_only self"
  shows "on_config sn search self =
           (fst (check_nav_translations (make_all_languages (set_languages_options sn self))),
            fst (reconfigure_search (make_all_languages (set_languages_options sn self)) search),
            snd (reconfigure_search (make_all_languages (set_languages_options sn self)) search)
              @ snd (check_nav_translations
                       (make_all_languages (set_languages_options sn self))))"
  using assms
  by (simp add: on_config_def Let_def options_after_languages split: prod.splits)

text \<open>
  C8, as amended. When \<open>default_language_only\<close> is off, \<open>search_reconfigure\<close> is on and the
  search plugin has a non-empty \<open>lang\<close> list, \<open>on_config\<close> leaves in the plugin the
  configured list followed by every active locale that lunr supports and the list did not
  hold, in the order of \<open>all_languages\<close>; the log has a warning for exactly the active
  locales that lunr does not support.
\<close>

theorem on_config_extends_search_lang:
  assumes "\<not> default_language_only self" and "search_reconfigure self"
    and "lang plugin = Some configured" and "configured \<noteq> []"
  shows "fst (snd (on_config sn (Some plugin) self))
         = Some (plugin\<lparr>lang := Some (configured
                   @ filter (\<lambda>l. l \<in> set LUNR_LANGUAGES \<and> l \<notin> set configured)
                       (all_languages (fst (on_config sn (Some plugin) self))))\<rparr>)
         \<and> (\<forall>l. Warning_not_supported_by_lunr l \<in> set (snd (snd (on_config sn (Some plugin) self)))
                \<longleftrightarrow> l \<in> set (all_languages (fst (on_config sn (Some plugin) self)))
                    \<and> l \<notin> set LUNR_LANGUAGES)"
proof -
  define self1 where "self1 = make_all_languages (set_languages_options sn self)"
  define all where "all = all_languages self1"
  have d: "distinct all" unfolding all_def self1_def by (rule distinct_all_languages)
  have sr: "search_reconfigure self1"
    unfolding self1_def using assms(2) by (simp add: options_after_languages)
  have all_eq: "all_languages (fst (on_config sn (Some plugin) self)) = all"
    unfolding all_def self1_def by (rule all_languages_on_config)
  have loop: "search_langs_loop all configured [] =
     (configured @ filter (\<lambda>l. l \<in> set LUNR_LANGUAGES \<and> l \<notin> set configured) all,
      map (\<lambda>l. if l \<in> set LUNR_LANGUAGES then Info_adding_search_lang l
                 else Warning_not_supported_by_lunr l)
        (filter (\<lambda>l. l \<notin> set LUNR_LANGUAGES \<or> l \<notin> set configured) all))"
    using search_langs_loop_distinct [OF d, of configured "[]"] by simp
  have rs: "reconfigure_search self1 (Some plugin) =
     (Some (plugin\<lparr>lang := Some (configured
                @ filter (\<lambda>l. l \<in> set LUNR_LANGUAGES \<and> l \<notin> set configured) all)\<rparr>),
      map (\<lambda>l. if l \<in> set LUNR_LANGUAGES then Info_adding_search_lang l
                 else Warning_not_supported_by_lunr l)
        (filter (\<lambda>l. l \<notin> set LUNR_LANGUAGES \<or> l \<notin> set configured) all))"
    using sr assms(3,4) loop by (simp add: reconfigure_search_def all_def)
  have oc: "on_config sn (Some plugin) self =
              (fst (check_nav_translations self1),
               fst (reconfigure_search self1 (Some plugin)),
               snd (reconfigure_search self1 (Some plugin))
                 @ snd (check_nav_translations self1))"
    unfolding self1_def by (rule on_config_builds [OF assms(1)])
  have w2: "Warning_not_supported_by_lunr l \<notin> set (snd (check_nav_translations self1))" for l
    by (simp add: check_nav_translations_def)
  have w1: "Warning_not_supported_by_lunr l
              \<in> set (snd (reconfigure_search self1 (Some plugin)))
            \<longleftrightarrow> l \<in> set all \<and> l \<notin> set LUNR_LANGUAGES" for l
    unfolding rs by auto
  show ?thesis
    unfolding all_eq unfolding oc using rs w1 w2 by simp
qed

theorem on_config_extends_search_lang_witness:
  "\<not> default_language_only
        (I18n ''en'' [built_locale ''fr'' ''francais'', built_locale ''en'' ''english''])
   \<and> search_reconfigure
        (I18n ''en'' [built_locale ''fr'' ''francais'', built_locale ''en'' ''english''])
   \<and> lang \<lparr>lang = Some [''en'']\<rparr> = Some [''en''] \<and> [''en''] \<noteq> []
   \<and> fst (snd (on_config (Some ''Site'') (Some \<lparr>lang = Some [''en'']\<rparr>)
        (I18n ''en'' [built_locale ''fr'' ''francais'', built_locale ''en'' ''english''])))
     = Some \<lparr>lang = Some [''en'', ''fr'']\<rparr>"
proof -
  let ?self = "I18n ''en'' [built_locale ''fr'' ''francais'', built_locale ''en'' ''english'']"
  let ?plugin = "\<lparr>lang = Some [''en'']\<rparr>"
  have h1: "\<not> default_language_only ?self" by (simp add: I18n_def)
  have h2: "search_reconfigure ?self" by (simp add: I18n_def)
  have h3: "lang ?plugin = Some [''en'']" by simp
  have h4: "[''en''] \<noteq> ([] :: string list)" by simp
  have all: "all_languages (fst (on_config (Some ''Site'') (Some ?plugin) ?self))
             = [''fr'', ''en'']"
    unfolding all_languages_on_config
    by (simp add: make_all_languages_def set_languages_options_def I18n_def
          built_locale_def py_or_def Let_def)
  from on_config_extends_search_lang [OF h1 h2 h3 h4, of "Some ''Site''"]
  have "fst (snd (on_config (Some ''Site'') (Some ?plugin) ?self))
        = Some (?plugin\<lparr>lang := Some ([''en'']
                  @ filter (\<lambda>l. l \<in> set LUNR_LANGUAGES \<and> l \<notin> set [''en''])
                      (all_languages (fst (on_config (Some ''Site'') (Some ?plugin) ?self))))\<rparr>)"
    by blast
  then have "fst (snd (on_config (Some ''Site'') (Some ?plugin) ?self))
             = Some \<lparr>lang = Some [''en'', ''fr'']\<rparr>"
    unfolding all by (simp add: LUNR_LANGUAGES_def)
  with h1 h2 h3 h4 show ?thesis by blast
qed

text \<open>
  C8, as stated, fails when \<open>default_language_only\<close> is set: \<open>on_config\<close> returns before
  it reaches the search plugin, and the \<open>lang\<close> list stays \<open>["en"]\<close>.
\<close>

theorem on_config_default_only_keeps_search_lang:
  "search_reconfigure
     ((I18n ''en'' [built_locale ''fr'' ''francais'', built_locale ''en'' ''english''])
        \<lparr>default_language_only := True\<rparr>)
   \<and> fst (snd (on_config (Some ''Site'') (Some \<lparr>lang = Some [''en'']\<rparr>)
        ((I18n ''en'' [built_locale ''fr'' ''francais'', built_locale ''en'' ''english''])
           \<lparr>default_language_only := True\<rparr>)))
     = Some \<lparr>lang = Some [''en'']\<rparr>
   \<and> all_languages (fst (on_config (Some ''Site'') (Some \<lparr>lang = Some [''en'']\<rparr>)
        ((I18n ''en'' [built_locale ''fr'' ''francais'', built_locale ''en'' ''english''])
           \<lparr>default_language_only := True\<rparr>)))
     = [''fr'', ''en'']"
  by (simp add: on_config_def make_all_languages_def set_languages_options_def I18n_def
        built_locale_def py_or_def Let_def)


text \<open>
  With an empty \<open>lang\<close> list, or none, the loop fills a list of its own and the plugin's
  option stays as it was, although the log says that the languages were added.
\<close>

lemma reconfigure_search_empty_lang:
  assumes "lang plugin = None \<or> lang plugin = Some []"
  shows "fst (reconfigure_search self (Some plugin)) = Some plugin"
  using assms by (auto simp: reconfigure_search_def)

text \<open>
  C9, as amended. When \<open>default_language_only\<close> is off and the table of navigation
  translations is not empty but none of its keys is a configured locale (the default
  locale or a key of \<open>languages\<close> other than the reserved \<open>"default"\<close>), \<open>on_config\<close>
  returns with the table emptied and the mismatch logged, and no title is translated
  afterwards.
\<close>

theorem on_config_ignores_nav_translations:
  assumes "\<not> default_language_only self" and "nav_translations self \<noteq> []"
    and "set (map fst (nav_translations self))
           \<inter> insert (default_language self)
               (set (filter (\<lambda>k. k \<noteq> ''default'') (map fst (languages self)))) = {}"
  shows "nav_translations (fst (on_config sn search self)) = []
         \<and> Info_ignoring_nav_translations
             (map fst (languages (fst (on_config sn search self))))
             (map fst (nav_translations self))
           \<in> set (snd (snd (on_config sn search self)))
         \<and> (\<forall>language items.
               maybe_translate_titles (nav_translations (fst (on_config sn search self)))
                 language items = (False, items))"
proof -
  define self1 where "self1 = make_all_languages (set_languages_options sn self)"
  have nt: "nav_translations self1 = nav_translations self"
    and ls: "languages self1 = languages (set_languages_options sn self)"
    unfolding self1_def by (simp_all add: options_after_languages)
  have keys: "set (map fst (languages self1))
              = insert (default_language self)
                  (set (filter (\<lambda>k. k \<noteq> ''default'') (map fst (languages self))))"
    unfolding ls keys_set_languages_options Let_def by auto
  have no_key: "\<not> list_ex (\<lambda>l. l \<in> set (map fst (nav_translations self1)))
                     (map fst (languages self1))"
    unfolding list_ex_iff keys nt using assms(3) by blast
  have cn: "check_nav_translations self1 =
              (self1\<lparr>nav_translations := []\<rparr>,
               [Info_ignoring_nav_translations (map fst (languages self1))
                  (map fst (nav_translations self1))])"
    unfolding check_nav_translations_def using no_key assms(2) nt by simp
  have oc: "on_config sn search self =
              (fst (check_nav_translations self1),
               fst (reconfigure_search self1 search),
               snd (reconfigure_search self1 search) @ snd (check_nav_translations self1))"
    unfolding self1_def by (rule on_config_builds [OF assms(1)])
  have "maybe_translate_titles [] language items = (False, items)" for language items
    by (simp add: get_translated_nav_def)
  then show ?thesis
    unfolding oc cn using nt by simp
qed

theorem on_config_ignores_nav_translations_witness:
  "\<not> default_language_only
        ((I18n ''en'' [built_locale ''fr'' ''francais''])
           \<lparr>nav_translations := [(''de'', [(''Home'', ''Startseite'')])]\<rparr>)
   \<and> nav_translations
        ((I18n ''en'' [built_locale ''fr'' ''francais''])
           \<lparr>nav_translations := [(''de'', [(''Home'', ''Startseite'')])]\<rparr>) \<noteq> []
   \<and> nav_translations (fst (on_config (Some ''Site'') None
        ((I18n ''en'' [built_locale ''fr'' ''francais''])
           \<lparr>nav_translations := [(''de'', [(''Home'', ''Startseite'')])]\<rparr>))) = []
   \<and> Info_ignoring_nav_translations [''fr'', ''en''] [''de'']
       \<in> set (snd (snd (on_config (Some ''Site'') None
        ((I18n ''en'' [built_locale ''fr'' ''francais''])
           \<lparr>nav_translations := [(''de'', [(''Home'', ''Startseite'')])]\<rparr>))))"
proof -
  let ?self = "(I18n ''en'' [built_locale ''fr'' ''francais''])
                 \<lparr>nav_translations := [(''de'', [(''Home'', ''Startseite'')])]\<rparr>"
  have h1: "\<not> default_language_only ?self" by (simp add: I18n_def)
  have h2: "nav_translations ?self \<noteq> []" by simp
  have h3: "set (map fst (nav_translations ?self))
              \<inter> insert (default_language ?self)
                  (set (filter (\<lambda>k. k \<noteq> ''default'') (map fst (languages ?self)))) = {}"
    by (simp add: I18n_def built_locale_def)
  have keys: "map fst (languages (fst (on_config (Some ''Site'') None ?self)))
              = [''fr'', ''en'']"
    unfolding languages_on_config keys_set_languages_options
    by (simp add: I18n_def built_locale_def)
  from on_config_ignores_nav_translations [OF h1 h2 h3, of "Some ''Site''" None]
  have "nav_translations (fst (on_config (Some ''Site'') None ?self)) = []
        \<and> Info_ignoring_nav_translations
             (map fst (languages (fst (on_config (Some ''Site'') None ?self))))
             (map fst (nav_translations ?self))
           \<in> set (snd (snd (on_config (Some ''Site'') None ?self)))"
    by blast
  then have "nav_translations (fst (on_config (Some ''Site'') None ?self)) = []
        \<and> Info_ignoring_nav_translations [''fr'', ''en''] [''de'']
           \<in> set (snd (snd (on_config (Some ''Site'') None ?self)))"
    unfolding keys by simp
  with h1 h2 show ?thesis by blast
qed

text \<open>
  C9, as stated, fails when \<open>default_language_only\<close> is set: \<open>on_config\<close> returns before
  the check, logs nothing and leaves the table as it was.
\<close>

theorem on_config_default_only_keeps_nav_translations:
  "nav_translations (fst (on_config (Some ''Site'') None
      ((I18n ''en'' [built_locale ''fr'' ''francais''])
         \<lparr>default_language_only := True,
          nav_translations := [(''de'', [(''Home'', ''Startseite'')])]\<rparr>)))
   = [(''de'', [(''Home'', ''Startseite'')])]
   \<and> snd (snd (on_config (Some ''Site'') None
      ((I18n ''en'' [built_locale ''fr'' ''francais''])
         \<lparr>default_language_only := True,
          nav_translations := [(''de'', [(''Home'', ''Startseite'')])]\<rparr>))) = []
   \<and> map fst (languages (fst (on_config (Some ''Site'') None
      ((I18n ''en'' [built_locale ''fr'' ''francais''])
         \<lparr>default_language_only := True,
          nav_translations := [(''de'', [(''Home'', ''Startseite'')])]\<rparr>)))) = [''fr'', ''en'']"
  by (simp add: on_config_def make_all_languages_def set_languages_options_def I18n_def
        built_locale_def py_or_def Let_def)

section \<open>Properties of the substitution in configuration values\<close>

lemma replace_str_or_path_str:
  "replace_str_or_path (VStr s) s old (VStr n) = Inr (substituted old n (VStr s))"
  by (simp add: replace_str_or_path_def Let_def)

lemma replace_str_or_path_target:
  "replace_str_or_path (VPath old) old old (VStr n) = Inr (substituted old n (VPath old))"
  by (simp add: replace_str_or_path_def Let_def)

lemma loops_substitute:
  "list_all (\<lambda>(k, v). dict_keys_distinct v) d \<Longrightarrow> distinct (map fst d) \<Longrightarrow>
   list_all (\<lambda>(k, v). no_path_but old v) d \<Longrightarrow> new = VStr n \<Longrightarrow>
   set (map fst x) \<inter> set (map fst d) = {} \<Longrightarrow>
   dict_items_loop d old new x = Inr (x @ map (\<lambda>(k, v). (k, substituted old n v)) d)"
  "list_all dict_keys_distinct l \<Longrightarrow> list_all (no_path_but old) l \<Longrightarrow> new = VStr n \<Longrightarrow>
   list_loop l old new y = Inr (y @ map (substituted old n) l)"
proof (induction d old new x and l old new y rule: dict_items_loop_list_loop.induct)
  case (1 old new x)
  show ?case by simp
next
  case (2 k v items old new x)
  have v: "(case v of
              VDict d \<Rightarrow> map_sum id VDict (dict_items_loop d old new [])
            | VList l \<Rightarrow> map_sum id VList (list_loop l old new [])
            | VStr s \<Rightarrow> replace_str_or_path v s old new
            | VPath p \<Rightarrow> replace_str_or_path v p old new
            | _ \<Rightarrow> Inr v) = Inr (substituted old n v)"
  proof (cases v)
    case (VDict d')
    with 2 show ?thesis by simp
  next
    case (VList l')
    with 2 show ?thesis by simp
  next
    case (VStr s)
    with 2 show ?thesis by (simp add: replace_str_or_path_str)
  next
    case (VPath p)
    with 2 show ?thesis by (simp add: replace_str_or_path_target)
  qed simp_all
  from "2.prems" have items:
    "list_all (\<lambda>(k, v). dict_keys_distinct v) items" "distinct (map fst items)"
    "list_all (\<lambda>(k, v). no_path_but old v) items" "new = VStr n"
    by simp_all
  have k: "k \<notin> set (map fst x)" using "2.prems"(5) by auto
  have upd: "AList.update k (substituted old n v) x = x @ [(k, substituted old n v)]"
    using k by (rule update_new)
  have disj: "set (map fst (AList.update k (substituted old n v) x)) \<inter> set (map fst items)
              = {}"
    unfolding upd using "2.prems"(2,5) by auto
  have "dict_items_loop items old new (AList.update k (substituted old n v) x)
        = Inr (AList.update k (substituted old n v) x
               @ map (\<lambda>(k, v). (k, substituted old n v)) items)"
    by (rule "2.IH"(3) [OF v items disj])
  then show ?case using v upd by simp
next
  case (3 old new y)
  show ?case by simp
next
  case (4 e listing old new y)
  have e: "(case e of
              VList l \<Rightarrow> map_sum id VList (list_loop l old new [])
            | VDict d \<Rightarrow> map_sum id VDict (dict_items_loop d old new [])
            | VStr s \<Rightarrow> replace_str_or_path e s old new
            | VPath p \<Rightarrow> replace_str_or_path e p old new
            | _ \<Rightarrow> Inr e) = Inr (substituted old n e)"
  proof (cases e)
    case (VDict d')
    with 4 show ?thesis by simp
  next
    case (VList l')
    with 4 show ?thesis by simp
  next
    case (VStr s)
    with 4 show ?thesis by (simp add: replace_str_or_path_str)
  next
    case (VPath p)
    with 4 show ?thesis by (simp add: replace_str_or_path_target)
  qed simp_all
  from "4.prems" have rest:
    "list_all dict_keys_distinct listing" "list_all (no_path_but old) listing" "new = VStr n"
    by simp_all
  have "list_loop listing old new (y @ [substituted old n e])
        = Inr ((y @ [substituted old n e]) @ map (substituted old n) listing)"
    by (rule "4.IH"(3) [OF e rest])
  then show ?case using e by simp
qed


text \<open>
  A Path that is not string-equal to the target makes either function raise, whatever
  the replacement: the value is kept and \<open>_is_url\<close> is called on a Path.
\<close>

lemma replace_value_raises_on_path:
  assumes "p \<noteq> old"
  shows "\<exists>err. list_replace_value (before @ VPath p # after) old new = Inl err"
    and "list_replace_value [VPath p] old new = Inl AttributeError"
    and "dict_replace_value [(k, VPath p)] old new = Inl AttributeError"
proof -
  have leaf: "replace_str_or_path (VPath p) p old new = Inl AttributeError"
    using assms by (simp add: replace_str_or_path_def)
  show "list_replace_value [VPath p] old new = Inl AttributeError"
    using leaf by (simp add: list_replace_value_def)
  show "dict_replace_value [(k, VPath p)] old new = Inl AttributeError"
    using leaf by (simp add: dict_replace_value_def)
  have "\<exists>err. list_loop (before @ VPath p # after) old new x = Inl err" for x
  proof (induction before arbitrary: x)
    case Nil
    show ?case using leaf by simp
  next
    case (Cons b before)
    show ?case using Cons.IH by (simp split: sum.splits)
  qed
  then show "\<exists>err. list_replace_value (before @ VPath p # after) old new = Inl err"
    by (simp add: list_replace_value_def)
qed

text \<open>
  Where the pass returns. On a dict or a list of strings, scalars, nested dicts and
  nested lists that holds no Path but Paths string-equal to the target, and with a
  string as the replacement, both functions return, and what they return has the shape
  and the keys of the input, with every value string-equal to the target replaced by the
  replacement; every string that is URL-like after that is as it was, and every other
  one is in the normal form of a path.
\<close>

lemma replace_value_substitutes:
  assumes "dict_keys_distinct (VDict directory)" and "no_path_but old (VDict directory)"
    and "dict_keys_distinct (VList listing)" and "no_path_but old (VList listing)"
  shows "dict_replace_value directory old (VStr new)
           = Inr (map (\<lambda>(k, v). (k, substituted old new v)) directory)
         \<and> list_replace_value listing old (VStr new) = Inr (map (substituted old new) listing)
         \<and> substituted old new (VStr old)
             = VStr (if is_url new then new else posix_path_str new)
         \<and> substituted old new (VPath old)
             = VStr (if is_url new then new else posix_path_str new)
         \<and> (\<forall>s. s \<noteq> old \<and> is_url s \<longrightarrow> substituted old new (VStr s) = VStr s)
         \<and> (\<forall>s. s \<noteq> old \<and> \<not> is_url s
                \<longrightarrow> substituted old new (VStr s) = VStr (posix_path_str s))"
proof -
  have "dict_items_loop directory old (VStr new) []
        = Inr ([] @ map (\<lambda>(k, v). (k, substituted old new v)) directory)"
    using assms(1,2) by (intro loops_substitute(1)) simp_all
  moreover have "list_loop listing old (VStr new) []
        = Inr ([] @ map (substituted old new) listing)"
    using assms(3,4) by (intro loops_substitute(2)) simp_all
  ultimately show ?thesis
    by (simp add: dict_replace_value_def list_replace_value_def Let_def)
qed

lemma replace_value_substitutes_example:
  "dict_keys_distinct (VDict [(''nav'', VList [VStr ''index.md''])])
   \<and> no_path_but ''index.md'' (VDict [(''nav'', VList [VStr ''index.md''])])
   \<and> dict_keys_distinct
        (VList [VStr ''index.md'',
                VDict [(''Guide'', VStr ''./guide//start.md''), (''Home'', VStr ''https://a//b'')]])
   \<and> no_path_but ''index.md''
        (VList [VStr ''index.md'',
                VDict [(''Guide'', VStr ''./guide//start.md''), (''Home'', VStr ''https://a//b'')]])
   \<and> dict_replace_value [(''nav'', VList [VStr ''index.md''])] ''index.md'' (VStr ''index.fr.md'')
       = Inr [(''nav'', VList [VStr ''index.fr.md''])]
   \<and> list_replace_value
         [VStr ''index.md'',
          VDict [(''Guide'', VStr ''./guide//start.md''), (''Home'', VStr ''https://a//b'')]]
         ''index.md'' (VStr ''index.fr.md'')
       = Inr [VStr ''index.fr.md'',
              VDict [(''Guide'', VStr ''guide/start.md''), (''Home'', VStr ''https://a//b'')]]"
proof -
  let ?d = "[(''nav'', VList [VStr ''index.md''])]"
  let ?l = "[VStr ''index.md'',
             VDict [(''Guide'', VStr ''./guide//start.md''), (''Home'', VStr ''https://a//b'')]]"
  have h1: "dict_keys_distinct (VDict ?d)" by simp
  have h2: "no_path_but ''index.md'' (VDict ?d)" by simp
  have h3: "dict_keys_distinct (VList ?l)" by simp
  have h4: "no_path_but ''index.md'' (VList ?l)" by simp
  have v1: "map (\<lambda>(k, v). (k, substituted ''index.md'' ''index.fr.md'' v)) ?d
            = [(''nav'', VList [VStr ''index.fr.md''])]"
    by (simp add: is_url_def posix_path_str_def)
  have v2: "map (substituted ''index.md'' ''index.fr.md'') ?l
            = [VStr ''index.fr.md'',
               VDict [(''Guide'', VStr ''guide/start.md''), (''Home'', VStr ''https://a//b'')]]"
    by (simp add: is_url_def posix_path_str_def)
  from replace_value_substitutes [OF h1 h2 h3 h4, of "''index.fr.md''"]
  have "dict_replace_value ?d ''index.md'' (VStr ''index.fr.md'')
          = Inr (map (\<lambda>(k, v). (k, substituted ''index.md'' ''index.fr.md'' v)) ?d)
        \<and> list_replace_value ?l ''index.md'' (VStr ''index.fr.md'')
          = Inr (map (substituted ''index.md'' ''index.fr.md'') ?l)"
    by blast
  then have "dict_replace_value ?d ''index.md'' (VStr ''index.fr.md'')
               = Inr [(''nav'', VList [VStr ''index.fr.md''])]
        \<and> list_replace_value ?l ''index.md'' (VStr ''index.fr.md'')
               = Inr [VStr ''index.fr.md'',
                      VDict [(''Guide'', VStr ''guide/start.md''),
                             (''Home'', VStr ''https://a//b'')]]"
    unfolding v1 v2 .
  with h1 h2 h3 h4 show ?thesis by blast
qed

text \<open>
  C5. The pass is to return a transformed copy of every dict or list of strings, Paths,
  nested dicts and nested lists, with the Paths in normal form. On a Path that is not
  the target it does not: the branch for strings and Paths keeps the Path as the value
  and calls \<open>_is_url\<close> on it, which calls \<open>startswith\<close>, and a Path has no such method.
  A dict that holds the Path \<open>docs\<close>, or a list that holds the Path \<open>guide.md\<close> after
  the target, makes the pass raise an AttributeError, so nothing is returned.
\<close>

theorem replace_value_raises_on_path_value:
  "dict_replace_value [(''docs_dir'', VPath ''docs'')] ''index.md'' (VStr ''index.fr.md'')
     = Inl AttributeError
   \<and> list_replace_value [VStr ''index.md'', VPath ''guide.md''] ''index.md''
       (VStr ''index.fr.md'')
     = Inl AttributeError"
  by (simp add: dict_replace_value_def list_replace_value_def replace_str_or_path_def
        is_url_def posix_path_str_def)

section \<open>Properties of the localized copies\<close>

subsection \<open>What a deep copy keeps and adds\<close>

lemma copy_step_refl: "copy_step old h m h m"
  by (auto simp: copy_step_def)

lemma fresh_children_mono:
  assumes f: "fresh_children old h1 a" and a: "a < length h1" and old: "old \<le> length h1"
    and l: "length h1 \<le> length h2" and k: "\<forall>b < length h1. h2 ! b = h1 ! b"
  shows "fresh_children old h2 a"
proof -
  have same: "h2 ! a = h1 ! a" using a k by simp
  have "(b < old \<and> atomic (h2 ! b)) \<or> (old \<le> b \<and> b < length h2)"
    if "b \<in> set (object_children (h1 ! a))" for b
  proof -
    from f that have "(b < old \<and> atomic (h1 ! b)) \<or> (old \<le> b \<and> b < length h1)"
      unfolding fresh_children_def list_all_iff by blast
    then show ?thesis
    proof
      assume b: "b < old \<and> atomic (h1 ! b)"
      then have "b < length h1" using old by simp
      with k have "h2 ! b = h1 ! b" by simp
      with b show ?thesis by simp
    next
      assume "old \<le> b \<and> b < length h1"
      with l show ?thesis by simp
    qed
  qed
  then show ?thesis unfolding fresh_children_def list_all_iff same by blast
qed

lemma copy_step_trans:
  assumes s1: "copy_step old h m h1 m1" and s2: "copy_step old h1 m1 h2 m2"
    and old: "old \<le> length h"
  shows "copy_step old h m h2 m2"
proof -
  from s1 have l1: "length h \<le> length h1" and k1: "\<forall>a < length h. h1 ! a = h ! a"
    and e1: "\<forall>a b. map_of m a = Some b \<longrightarrow> map_of m1 a = Some b"
    and n1: "\<forall>a b. map_of m1 a = Some b \<longrightarrow> map_of m a = Some b
               \<or> (a < old \<and> \<not> atomic (h ! a) \<and> length h \<le> b \<and> b < length h1)"
    and f1: "\<forall>a. length h \<le> a \<and> a < length h1 \<longrightarrow> fresh_children old h1 a"
    unfolding copy_step_def by blast+
  from s2 have l2: "length h1 \<le> length h2" and k2: "\<forall>a < length h1. h2 ! a = h1 ! a"
    and e2: "\<forall>a b. map_of m1 a = Some b \<longrightarrow> map_of m2 a = Some b"
    and n2: "\<forall>a b. map_of m2 a = Some b \<longrightarrow> map_of m1 a = Some b
               \<or> (a < old \<and> \<not> atomic (h1 ! a) \<and> length h1 \<le> b \<and> b < length h2)"
    and f2: "\<forall>a. length h1 \<le> a \<and> a < length h2 \<longrightarrow> fresh_children old h2 a"
    unfolding copy_step_def by blast+
  have c1: "length h \<le> length h2" using l1 l2 by simp
  have c2: "\<forall>a < length h. h2 ! a = h ! a" using k1 k2 l1 by simp
  have c3: "\<forall>a b. map_of m a = Some b \<longrightarrow> map_of m2 a = Some b" using e1 e2 by blast
  have c4: "\<forall>a b. map_of m2 a = Some b \<longrightarrow> map_of m a = Some b
               \<or> (a < old \<and> \<not> atomic (h ! a) \<and> length h \<le> b \<and> b < length h2)"
  proof (intro allI impI)
    fix a b assume "map_of m2 a = Some b"
    with n2 consider "map_of m1 a = Some b"
      | "a < old" "\<not> atomic (h1 ! a)" "length h1 \<le> b" "b < length h2" by blast
    then show "map_of m a = Some b
               \<or> (a < old \<and> \<not> atomic (h ! a) \<and> length h \<le> b \<and> b < length h2)"
    proof cases
      case 1
      with n1 have "map_of m a = Some b
               \<or> (a < old \<and> \<not> atomic (h ! a) \<and> length h \<le> b \<and> b < length h1)" by blast
      with l2 show ?thesis by auto
    next
      case 2
      from 2(1) old have "a < length h" by simp
      with k1 have "h1 ! a = h ! a" by simp
      with 2 l1 show ?thesis by simp
    qed
  qed
  have c5: "\<forall>a. length h \<le> a \<and> a < length h2 \<longrightarrow> fresh_children old h2 a"
  proof (intro allI impI)
    fix a assume a: "length h \<le> a \<and> a < length h2"
    show "fresh_children old h2 a"
    proof (cases "a < length h1")
      case True
      with a f1 have "fresh_children old h1 a" by blast
      then show ?thesis
        using True old l1 l2 k2 by (intro fresh_children_mono [of old h1 a h2]) auto
    next
      case False
      with a f2 show ?thesis by simp
    qed
  qed
  from c1 c2 c3 c4 c5 show ?thesis unfolding copy_step_def by blast
qed

lemma copy_step_old_closed:
  assumes "copy_step old h m h' m'" and "old_closed old h"
  shows "old_closed old h'"
proof -
  from assms(1) have l: "length h \<le> length h'" and k: "\<forall>a < length h. h' ! a = h ! a"
    unfolding copy_step_def by blast+
  from assms(2) have old: "old \<le> length h"
    and c: "\<forall>a < old. \<forall>b \<in> set (object_children (h ! a)). b < old"
    unfolding old_closed_def by blast+
  have "h' ! a = h ! a" if "a < old" for a using that old k by simp
  with c l old show ?thesis unfolding old_closed_def by simp
qed

lemma copy_step_memo_fresh:
  assumes "copy_step old h m h' m'" and "memo_fresh old h m" and "old \<le> length h"
  shows "memo_fresh old h' m'"
  unfolding memo_fresh_def
proof (intro allI impI)
  fix a b assume ab: "map_of m' a = Some b"
  from assms(1) have l: "length h \<le> length h'" and k: "\<forall>a < length h. h' ! a = h ! a"
    and n: "\<forall>a b. map_of m' a = Some b \<longrightarrow> map_of m a = Some b
               \<or> (a < old \<and> \<not> atomic (h ! a) \<and> length h \<le> b \<and> b < length h')"
    unfolding copy_step_def by blast+
  from n ab consider "map_of m a = Some b"
    | "a < old" "\<not> atomic (h ! a)" "length h \<le> b" "b < length h'" by blast
  then show "a < old \<and> \<not> atomic (h' ! a) \<and> old \<le> b \<and> b < length h'"
  proof cases
    case 1
    with assms(2) have "a < old" "\<not> atomic (h ! a)" "old \<le> b" "b < length h"
      unfolding memo_fresh_def by blast+
    moreover from this assms(3) k have "h' ! a = h ! a" by simp
    ultimately show ?thesis using l by simp
  next
    case 2
    moreover from this assms(3) k have "h' ! a = h ! a" by simp
    ultimately show ?thesis using assms(3) by simp
  qed
qed

lemma copied_mono:
  assumes "copied h m x y" and "\<forall>a b. map_of m a = Some b \<longrightarrow> map_of m' a = Some b"
    and "h' ! x = h ! x"
  shows "copied h' m' x y"
  using assms unfolding copied_def by auto

text \<open>The step that closes a new list or dict: the placeholder gets its elements.\<close>

lemma copy_step_close:
  assumes old: "old_closed old h" and mf: "memo_fresh old h m"
    and x: "x < old" and none: "map_of m x = None" and na: "\<not> atomic (h ! x)"
    and step: "copy_step old (h @ [placeholder]) ((x, length h) # m) h2 m2"
    and ys: "list_all2 (copied (h @ [placeholder]) m2) xs ys"
    and xs: "\<forall>x \<in> set xs. x < old"
    and ch: "object_children obj = ys"
  shows "copy_step old h m (h2[length h := obj]) m2 \<and> copied h m2 x (length h)"
proof -
  let ?h1 = "h @ [placeholder]"
  let ?m1 = "(x, length h) # m"
  let ?h' = "h2[length h := obj]"
  from old have ol: "old \<le> length h" unfolding old_closed_def by blast
  from step have l: "length ?h1 \<le> length h2" and k: "\<forall>a < length ?h1. h2 ! a = ?h1 ! a"
    and e: "\<forall>a b. map_of ?m1 a = Some b \<longrightarrow> map_of m2 a = Some b"
    and n: "\<forall>a b. map_of m2 a = Some b \<longrightarrow> map_of ?m1 a = Some b
               \<or> (a < old \<and> \<not> atomic (?h1 ! a) \<and> length ?h1 \<le> b \<and> b < length h2)"
    and f: "\<forall>a. length ?h1 \<le> a \<and> a < length h2 \<longrightarrow> fresh_children old h2 a"
    unfolding copy_step_def by blast+
  have keep: "?h' ! a = h ! a" if "a < length h" for a
    using that k by (simp add: nth_append)
  have c1: "length h \<le> length ?h'" using l by simp
  have c3: "\<forall>a b. map_of m a = Some b \<longrightarrow> map_of m2 a = Some b"
    using e none by (metis map_of_Cons_code(2) option.distinct(1))
  have c4: "\<forall>a b. map_of m2 a = Some b \<longrightarrow> map_of m a = Some b
               \<or> (a < old \<and> \<not> atomic (h ! a) \<and> length h \<le> b \<and> b < length ?h')"
  proof (intro allI impI)
    fix a b assume "map_of m2 a = Some b"
    with n consider "map_of ?m1 a = Some b"
      | "a < old" "\<not> atomic (?h1 ! a)" "length ?h1 \<le> b" "b < length h2" by blast
    then show "map_of m a = Some b
               \<or> (a < old \<and> \<not> atomic (h ! a) \<and> length h \<le> b \<and> b < length ?h')"
    proof cases
      case 1
      show ?thesis
      proof (cases "a = x")
        case True
        with 1 have "b = length h" by simp
        with True x na l show ?thesis by simp
      next
        case False
        with 1 show ?thesis by simp
      qed
    next
      case 2
      from 2(1) ol have "?h1 ! a = h ! a" by (simp add: nth_append)
      with 2 show ?thesis by simp
    qed
  qed
  have mf2: "memo_fresh old h2 m2"
  proof -
    have "old_closed old ?h1" using old unfolding old_closed_def by (simp add: nth_append)
    moreover have "memo_fresh old ?h1 ?m1"
      unfolding memo_fresh_def
    proof (intro allI impI)
      fix a b assume ab: "map_of ?m1 a = Some b"
      show "a < old \<and> \<not> atomic (?h1 ! a) \<and> old \<le> b \<and> b < length ?h1"
      proof (cases "a = x")
        case True
        with ab have "b = length h" by simp
        with True x na ol show ?thesis by (simp add: nth_append)
      next
        case False
        with ab have "map_of m a = Some b" by simp
        with mf have "a < old" "\<not> atomic (h ! a)" "old \<le> b" "b < length h"
          unfolding memo_fresh_def by blast+
        with ol show ?thesis by (simp add: nth_append)
      qed
    qed
    ultimately show ?thesis using copy_step_memo_fresh [OF step] ol by simp
  qed
  have c5: "\<forall>a. length h \<le> a \<and> a < length ?h' \<longrightarrow> fresh_children old ?h' a"
  proof (intro allI impI)
    fix a assume a: "length h \<le> a \<and> a < length ?h'"
    show "fresh_children old ?h' a"
    proof (cases "a = length h")
      case True
      have "(b < old \<and> atomic (?h' ! b)) \<or> (old \<le> b \<and> b < length ?h')" if "b \<in> set ys" for b
      proof -
        from that ys obtain x' where x': "x' \<in> set xs" "copied ?h1 m2 x' b"
          by (metis in_set_conv_nth list_all2_conv_all_nth)
        from x' xs have x'o: "x' < old" by blast
        then have same: "?h1 ! x' = h ! x'" using ol by (simp add: nth_append)
        show ?thesis
        proof (cases "atomic (h ! x')")
          case True
          with x'(2) same have "b = x'" unfolding copied_def by simp
          with True x'o keep [of x'] ol show ?thesis by simp
        next
          case False
          with x'(2) same have "map_of m2 x' = Some b" unfolding copied_def by simp
          with mf2 show ?thesis unfolding memo_fresh_def by simp
        qed
      qed
      then show ?thesis
        unfolding fresh_children_def list_all_iff using True a ch by simp
    next
      case False
      with a have a2: "length ?h1 \<le> a \<and> a < length h2" by simp
      with f have fc: "fresh_children old h2 a" by blast
      have same: "?h' ! a = h2 ! a" using False by simp
      have "(b < old \<and> atomic (?h' ! b)) \<or> (old \<le> b \<and> b < length ?h')"
        if "b \<in> set (object_children (h2 ! a))" for b
      proof -
        from fc that have "(b < old \<and> atomic (h2 ! b)) \<or> (old \<le> b \<and> b < length h2)"
          unfolding fresh_children_def list_all_iff by blast
        then show ?thesis using ol by auto
      qed
      then show ?thesis unfolding fresh_children_def list_all_iff same by blast
    qed
  qed
  have "map_of m2 x = Some (length h)" using e by simp
  then have cp: "copied h m2 x (length h)" using na unfolding copied_def by simp
  from c1 keep c3 c4 c5 cp show ?thesis unfolding copy_step_def by blast
qed


lemma old_closed_append:
  "old_closed old h \<Longrightarrow> old_closed old (h @ [obj])"
  unfolding old_closed_def by (simp add: nth_append)

lemma memo_fresh_enter:
  assumes mf: "memo_fresh old h m" and x: "x < old" and na: "\<not> atomic (h ! x)"
    and ol: "old \<le> length h"
  shows "memo_fresh old (h @ [obj]) ((x, length h) # m)"
  unfolding memo_fresh_def
proof (intro allI impI)
  fix a b assume ab: "map_of ((x, length h) # m) a = Some b"
  show "a < old \<and> \<not> atomic ((h @ [obj]) ! a) \<and> old \<le> b \<and> b < length (h @ [obj])"
  proof (cases "a = x")
    case True
    with ab have "b = length h" by simp
    with True x na ol show ?thesis by (simp add: nth_append)
  next
    case False
    with ab have "map_of m a = Some b" by simp
    with mf have "a < old" "\<not> atomic (h ! a)" "old \<le> b" "b < length h"
      unfolding memo_fresh_def by blast+
    with ol show ?thesis by (simp add: nth_append)
  qed
qed

text \<open>
  A deep copy that returns leaves the objects that were there as they were, extends the
  memo by entries from old lists and dicts to new objects, gives the new objects only
  new and old atomic elements, and answers with the copy of its argument.
\<close>

lemma deepcopy_step:
  "deepcopy n h m x = Some (h', m', y) \<Longrightarrow> old_closed old h \<Longrightarrow> memo_fresh old h m \<Longrightarrow>
   x < old \<Longrightarrow> copy_step old h m h' m' \<and> copied h m' x y"
  "deepcopy_all n h m xs = Some (h', m', ys) \<Longrightarrow> old_closed old h \<Longrightarrow> memo_fresh old h m \<Longrightarrow>
   \<forall>x \<in> set xs. x < old \<Longrightarrow> copy_step old h m h' m' \<and> list_all2 (copied h m') xs ys"
proof (induction n h m x and n h m xs arbitrary: h' m' y and h' m' ys
       rule: deepcopy_deepcopy_all.induct)
  case (1 h m x)
  then show ?case by simp
next
  case (2 n h m x)
  from "2.prems"(2) have ol: "old \<le> length h" unfolding old_closed_def by blast
  with "2.prems"(4) have xl: "x < length h" by simp
  show ?case
  proof (cases "map_of m x")
    case (Some y0)
    with "2.prems"(1) have eq: "h' = h" "m' = m" "y = y0" by simp_all
    from Some "2.prems"(3) have "\<not> atomic (h ! x)" unfolding memo_fresh_def by blast
    with Some eq show ?thesis by (simp add: copy_step_refl copied_def)
  next
    case None
    show ?thesis
    proof (cases "h ! x")
      case (OList xs)
      from "2.prems"(1) None xl OList obtain h2 m2 ys where
        rec: "deepcopy_all n (h @ [OList []]) ((x, length h) # m) xs = Some (h2, m2, ys)"
        and res: "h' = h2[length h := OList ys]" "m' = m2" "y = length h"
        by (auto split: option.splits)
      have na: "\<not> atomic (h ! x)" using OList by simp
      have xs: "\<forall>x' \<in> set xs. x' < old"
        using "2.prems"(2,4) OList unfolding old_closed_def by fastforce
      have ih: "copy_step old (h @ [OList []]) ((x, length h) # m) h2 m2
                \<and> list_all2 (copied (h @ [OList []]) m2) xs ys"
        using "2.IH"(1) [OF None xl OList rec old_closed_append [OF "2.prems"(2)]
            memo_fresh_enter [OF "2.prems"(3,4) na ol] xs] .
      from copy_step_close [OF "2.prems"(2,3,4) None na conjunct1 [OF ih] conjunct2 [OF ih] xs,
          of "OList ys"] res
      show ?thesis by simp
    next
      case (ODict items)
      from "2.prems"(1) None xl ODict obtain h2 m2 ys where
        rec: "deepcopy_all n (h @ [ODict []]) ((x, length h) # m) (map snd items)
              = Some (h2, m2, ys)"
        and res: "h' = h2[length h := ODict (zip (map fst items) ys)]" "m' = m2"
          "y = length h"
        by (auto split: option.splits)
      have na: "\<not> atomic (h ! x)" using ODict by simp
      have xs: "\<forall>x' \<in> set (map snd items). x' < old"
        using "2.prems"(2,4) ODict unfolding old_closed_def by fastforce
      have ih: "copy_step old (h @ [ODict []]) ((x, length h) # m) h2 m2
                \<and> list_all2 (copied (h @ [ODict []]) m2) (map snd items) ys"
        using "2.IH"(2) [OF None xl ODict rec old_closed_append [OF "2.prems"(2)]
            memo_fresh_enter [OF "2.prems"(3,4) na ol] xs] .
      have "length ys = length items"
        using conjunct2 [OF ih] by (simp add: list_all2_lengthD [symmetric])
      then have ch: "object_children (ODict (zip (map fst items) ys)) = ys" by simp
      from copy_step_close [OF "2.prems"(2,3,4) None na conjunct1 [OF ih] conjunct2 [OF ih] xs
          ch] res
      show ?thesis by simp
    next
      case ONone
      with "2.prems"(1) None xl show ?thesis by (simp add: copy_step_refl copied_def)
    next
      case (OBool b)
      with "2.prems"(1) None xl show ?thesis by (simp add: copy_step_refl copied_def)
    next
      case (OInt i)
      with "2.prems"(1) None xl show ?thesis by (simp add: copy_step_refl copied_def)
    next
      case (OStr s)
      with "2.prems"(1) None xl show ?thesis by (simp add: copy_step_refl copied_def)
    qed
  qed
next
  case (3 n h m)
  then show ?case by (simp add: copy_step_refl)
next
  case (4 n h m x xs)
  from "4.prems"(1) obtain h1 m1 y h2 m2 ys' where
    first: "deepcopy n h m x = Some (h1, m1, y)"
    and rest: "deepcopy_all n h1 m1 xs = Some (h2, m2, ys')"
    and res: "h' = h2" "m' = m2" "ys = y # ys'"
    by (auto split: option.splits)
  from "4.prems"(2) have ol: "old \<le> length h" unfolding old_closed_def by blast
  from "4.prems"(4) have x: "x < old" and xs: "\<forall>x' \<in> set xs. x' < old" by simp_all
  have s1: "copy_step old h m h1 m1" and c1: "copied h m1 x y"
    using "4.IH"(1) [OF first "4.prems"(2,3) x] by simp_all
  have oc1: "old_closed old h1" by (rule copy_step_old_closed [OF s1 "4.prems"(2)])
  have mf1: "memo_fresh old h1 m1" by (rule copy_step_memo_fresh [OF s1 "4.prems"(3) ol])
  have s2: "copy_step old h1 m1 h2 m2" and c2: "list_all2 (copied h1 m2) xs ys'"
    using "4.IH"(2) [OF first refl refl rest oc1 mf1 xs] by simp_all
  have step: "copy_step old h m h2 m2" by (rule copy_step_trans [OF s1 s2 ol])
  from s1 have k1: "\<forall>a < length h. h1 ! a = h ! a" unfolding copy_step_def by blast
  from s2 have e2: "\<forall>a b. map_of m1 a = Some b \<longrightarrow> map_of m2 a = Some b"
    unfolding copy_step_def by blast
  have cx: "copied h m2 x y" by (rule copied_mono [OF c1 e2 refl])
  have "copied h m2 x' y'" if "copied h1 m2 x' y'" "x' < old" for x' y'
  proof -
    from that(2) ol k1 have "h1 ! x' = h ! x'" by simp
    with that(1) show ?thesis unfolding copied_def by simp
  qed
  with c2 xs have "list_all2 (copied h m2) xs ys'"
    by (auto simp: list_all2_conv_all_nth)
  with step cx res show ?case by simp
qed

subsection \<open>A deep copy returns\<close>

text \<open>
  Every level of the recursion enters an old list or dict in the memo that was not in
  it, so a depth above the number of old objects that the memo lacks suffices.
\<close>

lemma unvisited_enter:
  fixes old :: nat
  assumes "x < old" and "map_of m x = None"
    and "card ({a. a < old} - dom (map_of m)) < Suc n"
  shows "card ({a. a < old} - dom (map_of ((x, y) # m))) < n"
proof -
  have fin: "finite ({a. a < old} - dom (map_of m))" by simp
  have x: "x \<in> {a. a < old} - dom (map_of m)" using assms(1,2) by (simp add: domIff)
  have "{a. a < old} - dom (map_of ((x, y) # m)) = ({a. a < old} - dom (map_of m)) - {x}"
    by auto
  then have "card ({a. a < old} - dom (map_of ((x, y) # m)))
             = card ({a. a < old} - dom (map_of m)) - 1"
    using card_Diff_singleton [OF x] by simp
  moreover have "0 < card ({a. a < old} - dom (map_of m))"
    using x fin card_gt_0_iff by blast
  ultimately show ?thesis using assms(3) by simp
qed

lemma unvisited_step:
  fixes old :: nat
  assumes "copy_step old' h m h' m'"
  shows "card ({a. a < old} - dom (map_of m')) \<le> card ({a. a < old} - dom (map_of m))"
proof -
  from assms have "\<forall>a b. map_of m a = Some b \<longrightarrow> map_of m' a = Some b"
    unfolding copy_step_def by blast
  then have "dom (map_of m) \<subseteq> dom (map_of m')" by (auto simp: domIff)
  then have "{a. a < old} - dom (map_of m') \<subseteq> {a. a < old} - dom (map_of m)" by blast
  then show ?thesis by (intro card_mono) simp_all
qed

lemma deepcopy_returns:
  "old_closed old h \<Longrightarrow> memo_fresh old h m \<Longrightarrow> x < old \<Longrightarrow>
   card ({a. a < old} - dom (map_of m)) < n \<Longrightarrow> deepcopy n h m x \<noteq> None"
  "old_closed old h \<Longrightarrow> memo_fresh old h m \<Longrightarrow> \<forall>x \<in> set xs. x < old \<Longrightarrow>
   card ({a. a < old} - dom (map_of m)) < n \<or> xs = [] \<Longrightarrow> deepcopy_all n h m xs \<noteq> None"
proof (induction n h m x and n h m xs rule: deepcopy_deepcopy_all.induct)
  case (1 h m x)
  then show ?case by simp
next
  case (2 n h m x)
  from "2.prems"(1) have ol: "old \<le> length h" unfolding old_closed_def by blast
  with "2.prems"(3) have xl: "x < length h" by simp
  show ?case
  proof (cases "map_of m x")
    case (Some y0)
    then show ?thesis by simp
  next
    case None
    have card: "card ({a. a < old} - dom (map_of ((x, length h) # m))) < n"
      by (rule unvisited_enter [OF "2.prems"(3) None "2.prems"(4)])
    show ?thesis
    proof (cases "h ! x")
      case (OList xs)
      have na: "\<not> atomic (h ! x)" using OList by simp
      have xs: "\<forall>x' \<in> set xs. x' < old"
        using "2.prems"(1,3) OList unfolding old_closed_def by fastforce
      have "deepcopy_all n (h @ [OList []]) ((x, length h) # m) xs \<noteq> None"
        using "2.IH"(1) [OF None xl OList old_closed_append [OF "2.prems"(1)]
            memo_fresh_enter [OF "2.prems"(2,3) na ol] xs] card by blast
      with None xl OList show ?thesis by (auto split: option.splits)
    next
      case (ODict items)
      have na: "\<not> atomic (h ! x)" using ODict by simp
      have xs: "\<forall>x' \<in> set (map snd items). x' < old"
        using "2.prems"(1,3) ODict unfolding old_closed_def by fastforce
      have "deepcopy_all n (h @ [ODict []]) ((x, length h) # m) (map snd items) \<noteq> None"
        using "2.IH"(2) [OF None xl ODict old_closed_append [OF "2.prems"(1)]
            memo_fresh_enter [OF "2.prems"(2,3) na ol] xs] card by blast
      with None xl ODict show ?thesis by (auto split: option.splits)
    qed (use None xl in simp_all)
  qed
next
  case (3 n h m)
  then show ?case by simp
next
  case (4 n h m x xs)
  from "4.prems"(4) have card: "card ({a. a < old} - dom (map_of m)) < n" by simp
  from "4.prems"(1) have ol: "old \<le> length h" unfolding old_closed_def by blast
  from "4.prems"(3) have x: "x < old" and xs: "\<forall>x' \<in> set xs. x' < old" by simp_all
  have "deepcopy n h m x \<noteq> None"
    by (rule "4.IH"(1) [OF "4.prems"(1,2) x card])
  then obtain h1 m1 y where first: "deepcopy n h m x = Some (h1, m1, y)" by auto
  have s1: "copy_step old h m h1 m1"
    using deepcopy_step(1) [OF first "4.prems"(1,2) x] by simp
  have oc1: "old_closed old h1" by (rule copy_step_old_closed [OF s1 "4.prems"(1)])
  have mf1: "memo_fresh old h1 m1" by (rule copy_step_memo_fresh [OF s1 "4.prems"(2) ol])
  have "card ({a. a < old} - dom (map_of m1)) < n"
    using unvisited_step [OF s1, of old] card by simp
  then have "deepcopy_all n h1 m1 xs \<noteq> None"
    using "4.IH"(2) [OF first refl refl oc1 mf1 xs] by blast
  with first show ?case by (auto split: option.splits)
qed

subsection \<open>A deep copy is similar to its original\<close>

lemma similar_mono:
  assumes "similar R A B"
    and "\<And>u v. u \<in> set (object_children A) \<Longrightarrow> R u v \<Longrightarrow> R' u v"
  shows "similar R' A B"
proof (cases A)
  case (OList xs)
  with assms(1) obtain ys where B: "B = OList ys" by (cases B) simp_all
  with assms OList show ?thesis
    by (auto simp: list_all2_conv_all_nth)
next
  case (ODict items)
  with assms(1) obtain items' where B: "B = ODict items'" by (cases B) simp_all
  with assms ODict show ?thesis
    by (auto simp: list_all2_conv_all_nth)
qed (use assms(1) in simp_all)

lemma similar_refl: "(\<And>u. R u u) \<Longrightarrow> similar R A A"
  by (cases A) (simp_all add: list_all2_same)

text \<open>
  An entry of the memo is finished in a heap when the new object is similar to the old
  one, the elements of the one being the copies of the elements of the other. A
  finished entry stays finished while the copy goes on.
\<close>

lemma finished_stays:
  assumes sim: "similar (copied h1 m1) (h1 ! a) (h1 ! b)"
    and a: "a < old" and b: "b < length h1"
    and step: "copy_step old' h1 m1 h2 m2" and oc: "old_closed old h1"
  shows "similar (copied h2 m2) (h2 ! a) (h2 ! b)"
proof -
  from step have k: "\<forall>c < length h1. h2 ! c = h1 ! c"
    and e: "\<forall>c d. map_of m1 c = Some d \<longrightarrow> map_of m2 c = Some d"
    unfolding copy_step_def by blast+
  from oc have ol: "old \<le> length h1"
    and cl: "\<forall>c < old. \<forall>d \<in> set (object_children (h1 ! c)). d < old"
    unfolding old_closed_def by blast+
  have sa: "h2 ! a = h1 ! a" using a ol k by simp
  have sb: "h2 ! b = h1 ! b" using b k by simp
  have "copied h2 m2 u v" if "u \<in> set (object_children (h1 ! a))" "copied h1 m1 u v" for u v
  proof -
    from that(1) cl a have "u < old" by blast
    with ol k have "h2 ! u = h1 ! u" by simp
    with that(2) e show ?thesis by (intro copied_mono [of h1 m1 u v m2 h2]) simp_all
  qed
  with sim show ?thesis unfolding sa sb by (rule similar_mono)
qed

lemma deepcopy_similar:
  "deepcopy n h m x = Some (h', m', y) \<Longrightarrow> old_closed old h \<Longrightarrow> memo_fresh old h m \<Longrightarrow>
   x < old \<Longrightarrow>
   \<forall>a b. map_of m' a = Some b \<and> map_of m a = None
     \<longrightarrow> similar (copied h' m') (h' ! a) (h' ! b)"
  "deepcopy_all n h m xs = Some (h', m', ys) \<Longrightarrow> old_closed old h \<Longrightarrow> memo_fresh old h m \<Longrightarrow>
   \<forall>x \<in> set xs. x < old \<Longrightarrow>
   \<forall>a b. map_of m' a = Some b \<and> map_of m a = None
     \<longrightarrow> similar (copied h' m') (h' ! a) (h' ! b)"
proof (induction n h m x and n h m xs arbitrary: h' m' y and h' m' ys
       rule: deepcopy_deepcopy_all.induct)
  case (1 h m x)
  then show ?case by simp
next
  case (2 n h m x)
  from "2.prems"(2) have ol: "old \<le> length h" unfolding old_closed_def by blast
  with "2.prems"(4) have xl: "x < length h" by simp
  show ?case
  proof (cases "map_of m x")
    case (Some y0)
    with "2.prems"(1) have "h' = h" "m' = m" by simp_all
    then show ?thesis by auto
  next
    case None
    have closing: "\<forall>a b. map_of m2 a = Some b \<and> map_of m a = None
          \<longrightarrow> similar (copied (h2[length h := obj]) m2)
                (h2[length h := obj] ! a) (h2[length h := obj] ! b)"
      if rec: "deepcopy_all n (h @ [placeholder]) ((x, length h) # m) xs = Some (h2, m2, ys)"
        and ih: "\<forall>a b. map_of m2 a = Some b \<and> map_of ((x, length h) # m) a = None
                   \<longrightarrow> similar (copied h2 m2) (h2 ! a) (h2 ! b)"
        and xs: "\<forall>x' \<in> set xs. x' < old" and na: "\<not> atomic (h ! x)"
        and obj: "list_all2 (copied (h @ [placeholder]) m2) xs ys
                  \<Longrightarrow> similar (copied (h @ [placeholder]) m2) (h ! x) obj"
      for placeholder h2 m2 xs ys obj
    proof (intro allI impI)
      fix a b assume ab: "map_of m2 a = Some b \<and> map_of m a = None"
      let ?h1 = "h @ [placeholder]"
      let ?m1 = "(x, length h) # m"
      let ?h' = "h2[length h := obj]"
      have oc1: "old_closed old ?h1" by (rule old_closed_append [OF "2.prems"(2)])
      have mf1: "memo_fresh old ?h1 ?m1"
        by (rule memo_fresh_enter [OF "2.prems"(3,4) na ol])
      from deepcopy_step(2) [OF rec oc1 mf1 xs]
      have step: "copy_step old ?h1 ?m1 h2 m2"
        and res: "list_all2 (copied ?h1 m2) xs ys" by simp_all
      from step have l: "length ?h1 \<le> length h2" and k: "\<forall>c < length ?h1. h2 ! c = ?h1 ! c"
        and e: "\<forall>c d. map_of ?m1 c = Some d \<longrightarrow> map_of m2 c = Some d"
        and nw: "\<forall>c d. map_of m2 c = Some d \<longrightarrow> map_of ?m1 c = Some d
               \<or> (c < old \<and> \<not> atomic (?h1 ! c) \<and> length ?h1 \<le> d \<and> d < length h2)"
        unfolding copy_step_def by blast+
      have mf2: "memo_fresh old h2 m2"
        using copy_step_memo_fresh [OF step mf1] ol by simp
      have keep: "?h' ! c = h ! c" if "c < length h" for c
        using that k by (simp add: nth_append)
      have old_same: "?h' ! c = h2 ! c" if "c < old" for c
        using that ol by simp
      have cop: "copied ?h' m2 u v" if "copied h2 m2 u v" "u < old" for u v
        using that old_same [of u] unfolding copied_def by simp
      from ab mf2 have a_old: "a < old" unfolding memo_fresh_def by blast
      have cl: "\<forall>c < old. \<forall>d \<in> set (object_children (h2 ! c)). d < old"
        using copy_step_old_closed [OF step oc1] unfolding old_closed_def by blast
      show "similar (copied ?h' m2) (?h' ! a) (?h' ! b)"
      proof (cases "a = x")
        case True
        with ab e have bx: "b = length h" by simp
        have hx: "?h' ! x = h ! x" using keep xl by simp
        have hb: "?h' ! b = obj" using bx l by simp
        have "copied ?h' m2 u v" if "u \<in> set (object_children (h ! x))" "copied ?h1 m2 u v"
          for u v
        proof -
          from that(1) "2.prems"(2,4) have uo: "u < old" unfolding old_closed_def by blast
          then have "?h' ! u = ?h1 ! u" using keep [of u] ol by (simp add: nth_append)
          with that(2) show ?thesis unfolding copied_def by simp
        qed
        with obj [OF res] show ?thesis unfolding True hx hb by (rule similar_mono)
      next
        case False
        with ab have "map_of ?m1 a = None" by simp
        with ab ih have sim: "similar (copied h2 m2) (h2 ! a) (h2 ! b)" by blast
        from ab nw False have b: "length ?h1 \<le> b \<and> b < length h2" by fastforce
        then have hb: "?h' ! b = h2 ! b" by simp
        have ha: "?h' ! a = h2 ! a" using old_same [OF a_old] .
        have "copied ?h' m2 u v" if "u \<in> set (object_children (h2 ! a))" "copied h2 m2 u v"
          for u v
          using cop [OF that(2)] cl a_old that(1) by blast
        with sim show ?thesis unfolding ha hb by (rule similar_mono)
      qed
    qed
    show ?thesis
    proof (cases "h ! x")
      case (OList xs)
      from "2.prems"(1) None xl OList obtain h2 m2 ys where
        rec: "deepcopy_all n (h @ [OList []]) ((x, length h) # m) xs = Some (h2, m2, ys)"
        and res: "h' = h2[length h := OList ys]" "m' = m2"
        by (auto split: option.splits)
      have na: "\<not> atomic (h ! x)" using OList by simp
      have xs: "\<forall>x' \<in> set xs. x' < old"
        using "2.prems"(2,4) OList unfolding old_closed_def by fastforce
      have ih: "\<forall>a b. map_of m2 a = Some b \<and> map_of ((x, length h) # m) a = None
                   \<longrightarrow> similar (copied h2 m2) (h2 ! a) (h2 ! b)"
        using "2.IH"(1) [OF None xl OList rec old_closed_append [OF "2.prems"(2)]
            memo_fresh_enter [OF "2.prems"(3,4) na ol] xs] .
      show ?thesis unfolding res
        by (rule closing [OF rec ih xs na]) (simp add: OList)
    next
      case (ODict items)
      from "2.prems"(1) None xl ODict obtain h2 m2 ys where
        rec: "deepcopy_all n (h @ [ODict []]) ((x, length h) # m) (map snd items)
              = Some (h2, m2, ys)"
        and res: "h' = h2[length h := ODict (zip (map fst items) ys)]" "m' = m2"
        by (auto split: option.splits)
      have na: "\<not> atomic (h ! x)" using ODict by simp
      have xs: "\<forall>x' \<in> set (map snd items). x' < old"
        using "2.prems"(2,4) ODict unfolding old_closed_def by fastforce
      have ih: "\<forall>a b. map_of m2 a = Some b \<and> map_of ((x, length h) # m) a = None
                   \<longrightarrow> similar (copied h2 m2) (h2 ! a) (h2 ! b)"
        using "2.IH"(2) [OF None xl ODict rec old_closed_append [OF "2.prems"(2)]
            memo_fresh_enter [OF "2.prems"(3,4) na ol] xs] .
      show ?thesis unfolding res
      proof (rule closing [OF rec ih xs na])
        assume r: "list_all2 (copied (h @ [ODict []]) m2) (map snd items) ys"
        then have "length ys = length items" by (simp add: list_all2_lengthD [symmetric])
        with r show "similar (copied (h @ [ODict []]) m2) (h ! x)
                       (ODict (zip (map fst items) ys))"
          by (simp add: ODict)
      qed
    next
      case ONone
      with "2.prems"(1) None xl show ?thesis by auto
    next
      case (OBool b)
      with "2.prems"(1) None xl show ?thesis by auto
    next
      case (OInt i)
      with "2.prems"(1) None xl show ?thesis by auto
    next
      case (OStr s)
      with "2.prems"(1) None xl show ?thesis by auto
    qed
  qed
next
  case (3 n h m)
  then show ?case by auto
next
  case (4 n h m x xs)
  from "4.prems"(1) obtain h1 m1 y h2 m2 ys' where
    first: "deepcopy n h m x = Some (h1, m1, y)"
    and rest: "deepcopy_all n h1 m1 xs = Some (h2, m2, ys')"
    and res: "h' = h2" "m' = m2"
    by (auto split: option.splits)
  from "4.prems"(2) have ol: "old \<le> length h" unfolding old_closed_def by blast
  from "4.prems"(4) have x: "x < old" and xs: "\<forall>x' \<in> set xs. x' < old" by simp_all
  have s1: "copy_step old h m h1 m1"
    using deepcopy_step(1) [OF first "4.prems"(2,3) x] by simp
  have oc1: "old_closed old h1" by (rule copy_step_old_closed [OF s1 "4.prems"(2)])
  have mf1: "memo_fresh old h1 m1" by (rule copy_step_memo_fresh [OF s1 "4.prems"(3) ol])
  have s2: "copy_step old h1 m1 h2 m2"
    using deepcopy_step(2) [OF rest oc1 mf1 xs] by simp
  have ih1: "\<forall>a b. map_of m1 a = Some b \<and> map_of m a = None
               \<longrightarrow> similar (copied h1 m1) (h1 ! a) (h1 ! b)"
    by (rule "4.IH"(1) [OF first "4.prems"(2,3) x])
  have ih2: "\<forall>a b. map_of m2 a = Some b \<and> map_of m1 a = None
               \<longrightarrow> similar (copied h2 m2) (h2 ! a) (h2 ! b)"
    by (rule "4.IH"(2) [OF first refl refl rest oc1 mf1 xs])
  show ?case unfolding res
  proof (intro allI impI)
    fix a b assume ab: "map_of m2 a = Some b \<and> map_of m a = None"
    show "similar (copied h2 m2) (h2 ! a) (h2 ! b)"
    proof (cases "map_of m1 a")
      case None
      with ab ih2 show ?thesis by blast
    next
      case (Some b1)
      from s2 Some have "map_of m2 a = Some b1" unfolding copy_step_def by blast
      with ab have bb: "b1 = b" by simp
      with Some ab ih1 have sim: "similar (copied h1 m1) (h1 ! a) (h1 ! b)" by blast
      from Some bb mf1 have "a < old" "b < length h1" unfolding memo_fresh_def by blast+
      then show ?thesis by (rule finished_stays [OF sim _ _ s2 oc1])
    qed
  qed
qed

subsection \<open>Reachable addresses and views\<close>

lemma reach_self: "a \<in> reach H a"
  by (simp add: reach_def)

lemma reach_child:
  assumes "b \<in> reach H a" and "b < length H" and "c \<in> set (object_children (H ! b))"
  shows "c \<in> reach H a"
proof -
  from assms(2,3) have "(b, c) \<in> edges H" by (simp add: edges_def)
  with assms(1) show ?thesis unfolding reach_def by (auto intro: rtrancl_into_rtrancl)
qed

lemma reach_trans: "b \<in> reach H a \<Longrightarrow> c \<in> reach H b \<Longrightarrow> c \<in> reach H a"
  unfolding reach_def by (auto intro: rtrancl_trans)

text \<open>A set that holds the elements and values of its members holds all that they reach.\<close>

lemma reach_subset:
  assumes "a \<in> X"
    and "\<And>u v. u \<in> X \<Longrightarrow> u < length H \<Longrightarrow> v \<in> set (object_children (H ! u)) \<Longrightarrow> v \<in> X"
  shows "reach H a \<subseteq> X"
proof
  fix b assume "b \<in> reach H a"
  then have "(a, b) \<in> (edges H)\<^sup>*" by (simp add: reach_def)
  then show "b \<in> X"
  proof (induction rule: rtrancl_induct)
    case base
    show ?case by (rule assms(1))
  next
    case (step u v)
    from step.hyps(2) have "u < length H" "v \<in> set (object_children (H ! u))"
      by (simp_all add: edges_def)
    with step.IH show ?case by (rule assms(2))
  qed
qed

text \<open>A write to an address that an object does not reach does not change its view.\<close>

lemma view_write_unreachable:
  "a \<notin> reach H c \<Longrightarrow> view n (H[a := obj]) c = view n H c"
proof (induction n arbitrary: c)
  case 0
  show ?case by simp
next
  case (Suc n)
  have ca: "c \<noteq> a" using Suc.prems reach_self [of c H] by auto
  show ?case
  proof (cases "c < length H")
    case False
    then show ?thesis by simp
  next
    case True
    have same: "H[a := obj] ! c = H ! c" using ca by simp
    have ch: "view n (H[a := obj]) u = view n H u"
      if "u \<in> set (object_children (H ! c))" for u
    proof -
      have "u \<in> reach H c" using reach_child [OF reach_self True that] .
      then have "a \<notin> reach H u" using Suc.prems reach_trans by blast
      then show ?thesis by (rule Suc.IH)
    qed
    show ?thesis
    proof (cases "H ! c")
      case (OList xs)
      with ch have "map (view n (H[a := obj])) xs = map (view n H) xs" by simp
      with True same OList show ?thesis by simp
    next
      case (ODict items)
      with ch have "map (\<lambda>(k, v). (k, view n (H[a := obj]) v)) items
                    = map (\<lambda>(k, v). (k, view n H v)) items"
        by (force intro!: map_cong)
      with True same ODict show ?thesis by simp
    qed (use True same in simp_all)
  qed
qed


subsection \<open>Operations on a dict in the heap\<close>

lemma closed_heap_iff:
  "closed_heap h \<longleftrightarrow> (\<forall>a < length h. \<forall>b \<in> set (object_children (h ! a)). b < length h)"
  unfolding closed_heap_def list_all_iff all_set_conv_all_nth by blast

lemma closed_heap_old_closed: "closed_heap h \<Longrightarrow> old_closed (length h) h"
  unfolding closed_heap_iff old_closed_def by simp

lemma set_snd_update:
  "set (map snd (AList.update k v items)) \<subseteq> insert v (set (map snd items))"
  by (induction items) auto

lemma set_snd_delete:
  "set (map snd (AList.delete k items)) \<subseteq> set (map snd items)"
  by (induction items) auto

lemma set_snd_attach_items:
  "set (map snd (attach_items p hooks items))
     \<subseteq> insert p (set (map snd items)) \<union> (case hooks of None \<Rightarrow> {} | Some a \<Rightarrow> {a})"
proof (cases hooks)
  case None
  then show ?thesis using set_snd_update [of "''plugins''" p items]
    by (simp add: attach_items_def)
next
  case (Some a)
  have "set (map snd (AList.update ''hooks'' a (AList.update ''plugins'' p items)))
        \<subseteq> insert a (insert p (set (map snd items)))"
    using set_snd_update [of "''hooks''" a "AList.update ''plugins'' p items"]
      set_snd_update [of "''plugins''" p items] by blast
  with Some show ?thesis by (auto simp: attach_items_def)
qed

text \<open>
  \<open>attach_shared\<close> on a dict, when the hooks are not that dict itself: the dict gets the
  items, with the hooks when they are truthy, and nothing else changes.
\<close>

lemma attach_shared_dict:
  assumes "cfg < length h" and "h ! cfg = ODict items"
    and "\<forall>a. hooks = Some a \<longrightarrow> a < length h \<and> a \<noteq> cfg"
  shows "attach_shared h cfg p hooks =
           Inr (h[cfg := ODict (attach_items p
                  (case hooks of None \<Rightarrow> None
                   | Some a \<Rightarrow> if truthy (h ! a) then Some a else None) items)])"
proof (cases hooks)
  case None
  with assms(1,2) show ?thesis
    by (simp add: attach_shared_def dict_setitem_def attach_items_def)
next
  case (Some a)
  with assms(3) have a: "a < length h" "a \<noteq> cfg" by simp_all
  with assms(1,2) Some show ?thesis
    by (simp add: attach_shared_def dict_setitem_def attach_items_def)
qed

subsection \<open>One localized copy\<close>

text \<open>
  The first step of \<open>deepcopy\<close> on a dict that the memo does not know, and what the run
  on its values gives: only the dict itself is copied to the first new address.
\<close>

lemma deepcopy_dict_root:
  assumes dc: "deepcopy depth h [] x = Some (h1, M, y)"
    and ch: "closed_heap h" and x: "x < length h" and d: "h ! x = ODict items"
  shows "y = length h \<and> map_of M x = Some (length h)
         \<and> (\<forall>a b. map_of M a = Some b \<longrightarrow> (b = length h \<longrightarrow> a = x))"
proof -
  from dc obtain n where depth: "depth = Suc n" by (cases depth) simp_all
  from dc depth x d obtain h2 m2 ys where
    rec: "deepcopy_all n (h @ [ODict []]) [(x, length h)] (map snd items) = Some (h2, m2, ys)"
    and res: "h1 = h2[length h := ODict (zip (map fst items) ys)]" "M = m2" "y = length h"
    by (auto split: option.splits)
  have oc: "old_closed (length h) h" by (rule closed_heap_old_closed [OF ch])
  have mf0: "memo_fresh (length h) h []" by (simp add: memo_fresh_def)
  have na: "\<not> atomic (h ! x)" using d by simp
  have xs: "\<forall>x' \<in> set (map snd items). x' < length h"
    using ch x d unfolding closed_heap_iff by fastforce
  from deepcopy_step(2) [OF rec old_closed_append [OF oc]
      memo_fresh_enter [OF mf0 x na le_refl] xs]
  have step: "copy_step (length h) (h @ [ODict []]) [(x, length h)] h2 m2" by simp
  then have e: "\<forall>a b. map_of [(x, length h)] a = Some b \<longrightarrow> map_of m2 a = Some b"
    and nw: "\<forall>a b. map_of m2 a = Some b \<longrightarrow> map_of [(x, length h)] a = Some b
               \<or> (a < length h \<and> \<not> atomic ((h @ [ODict []]) ! a)
                   \<and> length (h @ [ODict []]) \<le> b \<and> b < length h2)"
    unfolding copy_step_def by blast+
  have "map_of m2 x = Some (length h)" using e by simp
  moreover have "a = x" if "map_of m2 a = Some (length h)" for a
  proof -
    from nw that have "map_of [(x, length h)] a = Some (length h)
               \<or> length (h @ [ODict []]) \<le> length h" by blast
    then show ?thesis by (simp split: if_splits)
  qed
  ultimately show ?thesis using res by blast
qed


lemma similar_ODict_left:
  assumes "similar R (ODict items) obj"
  obtains items' where "obj = ODict items'" "map fst items = map fst items'"
    "list_all2 R (map snd items) (map snd items')"
  using assms by (cases obj) simp_all

text \<open>
  One round of the loop over the languages, in a closed heap whose first \<open>old\<close> objects
  are closed among themselves and hold the configuration without plugins and hooks: the
  deep copy returns, the shared objects are attached, the objects that were there are
  as they were, and the new objects are a finished localized copy at the first new
  address.
\<close>

lemma copy_one:
  assumes ch: "closed_heap h" and oc: "old_closed old h"
    and cfg: "config < old" and d: "h ! config = ODict popped"
    and fuel: "old < depth" and p: "p < old"
    and hk: "\<forall>a. hooks = Some a \<longrightarrow> a < old \<and> a \<noteq> config"
  shows "\<exists>h1 M h2.
           deepcopy depth h [] config = Some (h1, M, length h)
           \<and> attach_shared h1 (length h) p hooks = Inr h2
           \<and> length h < length h2 \<and> (\<forall>a < length h. h2 ! a = h ! a) \<and> closed_heap h2
           \<and> copy_ok old config popped p
               (case hooks of None \<Rightarrow> None
                | Some a \<Rightarrow> if truthy (h ! a) then Some a else None)
               h2 (length h) (length h2)"
proof -
  let ?c = "length h"
  let ?eh = "case hooks of None \<Rightarrow> None | Some a \<Rightarrow> if truthy (h ! a) then Some a else None"
  from oc have ol: "old \<le> length h"
    and cl: "\<forall>a < old. \<forall>b \<in> set (object_children (h ! a)). b < old"
    unfolding old_closed_def by blast+
  have cfgl: "config < length h" using cfg ol by simp
  have mf0: "memo_fresh old h []" by (simp add: memo_fresh_def)
  have mf0': "memo_fresh (length h) h []" by (simp add: memo_fresh_def)
  have "card ({a. a < old} - dom (map_of ([] :: (addr \<times> addr) list))) < depth"
    using fuel by simp
  from deepcopy_returns(1) [OF oc mf0 cfg this]
  obtain h1 M y where dc: "deepcopy depth h [] config = Some (h1, M, y)" by auto
  from deepcopy_dict_root [OF dc ch cfgl d]
  have y: "y = ?c" and root: "map_of M config = Some ?c"
    and inj: "\<forall>a b. map_of M a = Some b \<longrightarrow> (b = ?c \<longrightarrow> a = config)" by blast+
  from deepcopy_step(1) [OF dc closed_heap_old_closed [OF ch] mf0' cfgl]
  have step: "copy_step (length h) h [] h1 M" by simp
  then have l1: "length h \<le> length h1" and k1: "\<forall>a < length h. h1 ! a = h ! a"
    and rng: "\<forall>a b. map_of M a = Some b \<longrightarrow> length h \<le> b \<and> b < length h1"
    and fr: "\<forall>a. length h \<le> a \<and> a < length h1 \<longrightarrow> fresh_children (length h) h1 a"
    unfolding copy_step_def by auto
  from deepcopy_step(1) [OF dc oc mf0 cfg]
  have "copy_step old h [] h1 M" by simp
  then have keys: "\<forall>a b. map_of M a = Some b \<longrightarrow> a < old"
    unfolding copy_step_def by auto
  from deepcopy_similar(1) [OF dc oc mf0 cfg]
  have sim: "\<forall>a b. map_of M a = Some b \<longrightarrow> similar (copied h1 M) (h1 ! a) (h1 ! b)"
    by simp
  from rng root have cl1: "?c < length h1" by blast
  have h1cfg: "h1 ! config = ODict popped" using k1 cfgl d by simp
  from sim root have "similar (copied h1 M) (ODict popped) (h1 ! ?c)"
    using h1cfg by fastforce
  then obtain items where h1c: "h1 ! ?c = ODict items"
    and simc: "similar (copied h1 M) (ODict popped) (ODict items)"
    by (elim similar_ODict_left) simp
  have hk1: "\<forall>a. hooks = Some a \<longrightarrow> a < length h1 \<and> a \<noteq> ?c"
    using hk ol l1 by auto
  have truthy_same: "(case hooks of None \<Rightarrow> None
                      | Some a \<Rightarrow> if truthy (h1 ! a) then Some a else None) = ?eh"
    using hk ol k1 by (cases hooks) auto
  let ?h2 = "h1[?c := ODict (attach_items p ?eh items)]"
  have att: "attach_shared h1 ?c p hooks = Inr ?h2"
    using attach_shared_dict [OF cl1 h1c hk1, of p] unfolding truthy_same .
  have len2: "length ?h2 = length h1" by simp
  have keep: "?h2 ! a = h ! a" if "a < length h" for a using that k1 by simp
  have other: "?h2 ! a = h1 ! a" if "a \<noteq> ?c" for a using that by simp
  have h2c: "?h2 ! ?c = ODict (attach_items p ?eh items)" using cl1 by simp
  have eh_old: "\<forall>a. ?eh = Some a \<longrightarrow> a < old" using hk by (cases hooks) auto
  have atomic_same: "atomic (?h2 ! b) = atomic (h1 ! b)" for b
    using h1c h2c by (cases "b = ?c") simp_all
  \<comment> \<open>the elements of the new objects\<close>
  have children: "(b < ?c \<and> atomic (?h2 ! b)) \<or> (?c \<le> b \<and> b < length ?h2)
                  \<or> (a = ?c \<and> (b = p \<or> ?eh = Some b))"
    if a: "?c \<le> a" "a < length ?h2" and b: "b \<in> set (object_children (?h2 ! a))" for a b
  proof -
    have fc: "(b' < ?c \<and> atomic (?h2 ! b')) \<or> (?c \<le> b' \<and> b' < length ?h2)"
      if "a' \<ge> ?c" "a' < length h1" "b' \<in> set (object_children (h1 ! a'))" for a' b'
    proof -
      from fr that(1,2) have "fresh_children (length h) h1 a'" by blast
      with that(3) have "(b' < ?c \<and> atomic (h1 ! b')) \<or> (?c \<le> b' \<and> b' < length h1)"
        unfolding fresh_children_def list_all_iff by blast
      then show ?thesis using atomic_same by simp
    qed
    show ?thesis
    proof (cases "a = ?c")
      case False
      with b other have "b \<in> set (object_children (h1 ! a))" by simp
      moreover from a have "a < length h1" by simp
      ultimately have "(b < ?c \<and> atomic (?h2 ! b)) \<or> (?c \<le> b \<and> b < length ?h2)"
        using fc [of a b] a(1) by blast
      then show ?thesis by blast
    next
      case True
      with b h2c have "b \<in> set (map snd (attach_items p ?eh items))" by simp
      with set_snd_attach_items [of p ?eh items]
      have "b = p \<or> ?eh = Some b \<or> b \<in> set (map snd items)"
        by (cases ?eh) auto
      moreover have "(b < ?c \<and> atomic (?h2 ! b)) \<or> (?c \<le> b \<and> b < length ?h2)"
        if "b \<in> set (map snd items)"
      proof -
        from that h1c have "b \<in> set (object_children (h1 ! ?c))" by simp
        then show ?thesis using fc [of ?c b] cl1 by blast
      qed
      ultimately show ?thesis using True by blast
    qed
  qed
  have closed2: "closed_heap ?h2"
    unfolding closed_heap_iff
  proof (intro allI impI ballI)
    fix a b assume a: "a < length ?h2" and b: "b \<in> set (object_children (?h2 ! a))"
    show "b < length ?h2"
    proof (cases "a < ?c")
      case True
      with b keep have "b \<in> set (object_children (h ! a))" by simp
      with ch True have "b < length h" unfolding closed_heap_iff by blast
      with l1 show ?thesis by simp
    next
      case False
      with children [of a b] a b have "(b < ?c \<and> atomic (?h2 ! b)) \<or> (?c \<le> b \<and> b < length ?h2)
                  \<or> (a = ?c \<and> (b = p \<or> ?eh = Some b))" by simp
      with p eh_old ol l1 show ?thesis by auto
    qed
  qed
  \<comment> \<open>the objects of the copy are similar to the old ones\<close>
  have cop: "copied ?h2 M u v" if "copied h1 M u v" for u v
    using that atomic_same unfolding copied_def by simp
  have simc2: "similar (copied ?h2 M) (ODict popped) (ODict items)"
    using simc cop by (rule similar_mono)
  have memo: "a < old \<and> ?c \<le> b \<and> b < length ?h2 \<and> (b = ?c \<longrightarrow> a = config)
              \<and> (a \<noteq> config \<longrightarrow> similar (copied ?h2 M) (?h2 ! a) (?h2 ! b))"
    if ab: "map_of M a = Some b" for a b
  proof -
    from ab keys have ao: "a < old" by blast
    from ab rng have br: "?c \<le> b" "b < length h1" by blast+
    from ab inj have bi: "b = ?c \<longrightarrow> a = config" by blast
    have "similar (copied ?h2 M) (?h2 ! a) (?h2 ! b)" if "a \<noteq> config"
    proof -
      from that bi have "b \<noteq> ?c" by blast
      then have sb: "?h2 ! b = h1 ! b" by simp
      from ao ol have sa: "?h2 ! a = h1 ! a" by simp
      from ab sim have "similar (copied h1 M) (h1 ! a) (h1 ! b)" by blast
      then show ?thesis unfolding sa sb using cop by (rule similar_mono)
    qed
    with ao br bi show ?thesis by simp
  qed
  have ok: "copy_ok old config popped p ?eh ?h2 ?c (length ?h2)"
    unfolding copy_ok_def
  proof (intro conjI allI impI ballI)
    fix a b assume "?c \<le> a \<and> a < length ?h2" and "b \<in> set (object_children (?h2 ! a))"
    then show "(b < ?c \<and> atomic (?h2 ! b)) \<or> (?c \<le> b \<and> b < length ?h2)
                  \<or> (a = ?c \<and> (b = p \<or> ?eh = Some b))"
      using children by blast
  next
    show "\<exists>M items.
            ?h2 ! ?c = ODict (attach_items p ?eh items)
            \<and> map_of M config = Some ?c
            \<and> similar (copied ?h2 M) (ODict popped) (ODict items)
            \<and> (\<forall>a b. map_of M a = Some b \<longrightarrow>
                   a < old \<and> ?c \<le> b \<and> b < length ?h2 \<and> (b = ?c \<longrightarrow> a = config)
                   \<and> (a \<noteq> config \<longrightarrow> similar (copied ?h2 M) (?h2 ! a) (?h2 ! b)))"
      using h2c root simc2 memo by blast
  qed
  from dc y att cl1 keep closed2 ok show ?thesis
    by (intro exI [of _ h1] exI [of _ M] exI [of _ ?h2]) simp
qed

subsection \<open>All localized copies\<close>

text \<open>
  A finished copy stays one while the heap grows and changes nowhere below its end but
  at the configuration, which stays a dict.
\<close>

lemma copy_ok_stays:
  assumes ok: "copy_ok old config popped p eh h c e"
    and e: "e \<le> length h" and c: "old \<le> c" and cfg: "config < old"
    and oc: "old_closed old h" and pc: "\<forall>u \<in> set (map snd popped). u < old"
    and same: "\<forall>a < length h. a \<noteq> config \<longrightarrow> h' ! a = h ! a"
    and dict: "\<not> atomic (h ! config)" "\<not> atomic (h' ! config)"
  shows "copy_ok old config popped p eh h' c e"
proof -
  from oc have ol: "old \<le> length h"
    and cl: "\<forall>a < old. \<forall>b \<in> set (object_children (h ! a)). b < old"
    unfolding old_closed_def by blast+
  have at: "atomic (h' ! u) = atomic (h ! u)" if "u < length h" for u
    using that same dict by (cases "u = config") simp_all
  have cop: "copied h' M u v" if "copied h M u v" "u < old" for M u v
    using that at [of u] ol unfolding copied_def by simp
  from ok obtain M items where
    r: "\<forall>a. c \<le> a \<and> a < e \<longrightarrow>
         (\<forall>b \<in> set (object_children (h ! a)).
            (b < c \<and> atomic (h ! b)) \<or> (c \<le> b \<and> b < e)
            \<or> (a = c \<and> (b = p \<or> eh = Some b)))"
    and hc: "h ! c = ODict (attach_items p eh items)"
    and root: "map_of M config = Some c"
    and simc: "similar (copied h M) (ODict popped) (ODict items)"
    and memo: "\<forall>a b. map_of M a = Some b \<longrightarrow>
                   a < old \<and> c \<le> b \<and> b < e \<and> (b = c \<longrightarrow> a = config)
                   \<and> (a \<noteq> config \<longrightarrow> similar (copied h M) (h ! a) (h ! b))"
    unfolding copy_ok_def by blast
  have reg: "h' ! a = h ! a" if "c \<le> a" "a < e" for a
    using that same e c cfg by simp
  have r': "(b < c \<and> atomic (h' ! b)) \<or> (c \<le> b \<and> b < e)
            \<or> (a = c \<and> (b = p \<or> eh = Some b))"
    if "c \<le> a \<and> a < e" "b \<in> set (object_children (h' ! a))" for a b
  proof -
    from that reg have "b \<in> set (object_children (h ! a))" by simp
    with r that(1) have "(b < c \<and> atomic (h ! b)) \<or> (c \<le> b \<and> b < e)
            \<or> (a = c \<and> (b = p \<or> eh = Some b))" by blast
    moreover have "atomic (h' ! b)" if "b < c" "atomic (h ! b)"
      using at [of b] that \<open>c \<le> a \<and> a < e\<close> e by simp
    ultimately show ?thesis by blast
  qed
  have simc': "similar (copied h' M) (ODict popped) (ODict items)"
    using simc
  proof (rule similar_mono)
    fix u v assume u: "u \<in> set (object_children (ODict popped))" and uv: "copied h M u v"
    from u pc have "u < old" by auto
    with uv show "copied h' M u v" by (rule cop)
  qed
  have memo': "a < old \<and> c \<le> b \<and> b < e \<and> (b = c \<longrightarrow> a = config)
               \<and> (a \<noteq> config \<longrightarrow> similar (copied h' M) (h' ! a) (h' ! b))"
    if ab: "map_of M a = Some b" for a b
  proof -
    from memo ab have m: "a < old" "c \<le> b" "b < e" "b = c \<longrightarrow> a = config"
      "a \<noteq> config \<longrightarrow> similar (copied h M) (h ! a) (h ! b)" by blast+
    have "similar (copied h' M) (h' ! a) (h' ! b)" if nc: "a \<noteq> config"
    proof -
      have sa: "h' ! a = h ! a" using same m(1) ol nc by simp
      have sb: "h' ! b = h ! b" using reg m(2,3) by simp
      from m(5) nc have "similar (copied h M) (h ! a) (h ! b)" by simp
      then show ?thesis unfolding sa sb
      proof (rule similar_mono)
        fix u v assume u: "u \<in> set (object_children (h ! a))" and uv: "copied h M u v"
        from u cl m(1) have "u < old" by blast
        with uv show "copied h' M u v" by (rule cop)
      qed
    qed
    with m show ?thesis by simp
  qed
  have hc': "h' ! c = ODict (attach_items p eh items)"
    using hc reg [of c] memo root by fastforce
  show ?thesis unfolding copy_ok_def
    using r' hc' root simc' memo' by blast
qed


lemma old_closed_same:
  assumes "old_closed old h" and "length h \<le> length h'" and "\<forall>a < length h. h' ! a = h ! a"
  shows "old_closed old h'"
  using assms unfolding old_closed_def by (metis le_trans less_le_trans)


lemma delete_absent: "map_of al k = None \<Longrightarrow> AList.delete k al = al"
  by (induction al) (auto split: if_splits)

lemma closed_heap_update:
  assumes "closed_heap h" and "\<forall>b \<in> set (object_children obj). b < length h"
  shows "closed_heap (h[a := obj])"
  unfolding closed_heap_iff
proof (intro allI impI ballI)
  fix x b assume x: "x < length (h[a := obj])" and b: "b \<in> set (object_children (h[a := obj] ! x))"
  show "b < length (h[a := obj])"
  proof (cases "x = a")
    case True
    with x b assms(2) show ?thesis by simp
  next
    case False
    with x b assms(1) show ?thesis unfolding closed_heap_iff by simp
  qed
qed


subsection \<open>The entries after the assignments\<close>

lemma map_of_attach_items:
  "map_of (attach_items p hooks items) ''plugins'' = Some p"
  "map_of (attach_items p hooks items) ''hooks''
     = (case hooks of None \<Rightarrow> map_of items ''hooks'' | Some a \<Rightarrow> Some a)"
  by (cases hooks; simp add: attach_items_def update_conv')+

subsection \<open>What a finished copy shares and shows\<close>

lemma map_of_same_keys:
  "map fst items = map fst items' \<Longrightarrow> (map_of items k = None) = (map_of items' k = None)"
proof -
  assume a: "map fst items = map fst items'"
  have "(map_of items k = None) = (k \<notin> set (map fst items))"
    by (simp add: map_of_eq_None_iff)
  also have "\<dots> = (k \<notin> set (map fst items'))" using a by simp
  also have "\<dots> = (map_of items' k = None)"
    by (simp add: map_of_eq_None_iff)
  finally show ?thesis .
qed


text \<open>
  A finished copy has the plugins of the configuration under \<open>plugins\<close> and, under
  \<open>hooks\<close>, the truthy hooks or nothing.
\<close>

lemma copy_ok_shared:
  assumes ok: "copy_ok old config popped p eh H c e" and e: "c < e" "e \<le> length H"
    and nh: "map_of popped ''hooks'' = None"
  shows "dict_get H c ''plugins'' = Some p" and "dict_get H c ''hooks'' = eh"
proof -
  from ok obtain M items where
    hc: "H ! c = ODict (attach_items p eh items)"
    and simc: "similar (copied H M) (ODict popped) (ODict items)"
    unfolding copy_ok_def by blast
  from simc have "map fst popped = map fst items" by simp
  from map_of_same_keys [OF this, of "''hooks''"] nh
  have ni: "map_of items ''hooks'' = None" by simp
  have cl: "c < length H" using e by simp
  have g: "dict_get H c k = map_of (attach_items p eh items) k" for k
    using cl hc by (simp add: dict_get_def)
  show "dict_get H c ''plugins'' = Some p"
    unfolding g by (rule map_of_attach_items(1))
  show "dict_get H c ''hooks'' = eh"
    unfolding g map_of_attach_items(2) using ni by (cases eh) simp_all
qed



subsection \<open>A copy and the objects that it does not visit\<close>

text \<open>A copy only adds objects: it leaves those that were there as they were.\<close>

lemma deepcopy_prefix:
  "deepcopy n h m x = Some (h', m', y) \<Longrightarrow>
   length h \<le> length h' \<and> (\<forall>a < length h. h' ! a = h ! a)"
  "deepcopy_all n h m xs = Some (h', m', ys) \<Longrightarrow>
   length h \<le> length h' \<and> (\<forall>a < length h. h' ! a = h ! a)"
proof (induction n h m x and n h m xs arbitrary: h' m' y and h' m' ys
       rule: deepcopy_deepcopy_all.induct)
  case (1 h m x)
  then show ?case by simp
next
  case (2 n h m x)
  show ?case
  proof (cases "map_of m x")
    case (Some y0)
    with "2.prems" show ?thesis by simp
  next
    case None
    show ?thesis
    proof (cases "x < length h")
      case False
      with "2.prems" None show ?thesis by simp
    next
      case xl: True
      show ?thesis
      proof (cases "h ! x")
        case (OList xs)
        from "2.prems" None xl OList obtain h2 m2 ys where
          rec: "deepcopy_all n (h @ [OList []]) ((x, length h) # m) xs = Some (h2, m2, ys)"
          and res: "h' = h2[length h := OList ys]"
          by (auto split: option.splits)
        from "2.IH"(1) [OF None xl OList rec]
        have "length (h @ [OList []]) \<le> length h2"
          "\<forall>a < length (h @ [OList []]). h2 ! a = (h @ [OList []]) ! a" by blast+
        then show ?thesis unfolding res by (simp add: nth_append)
      next
        case (ODict items)
        from "2.prems" None xl ODict obtain h2 m2 ys where
          rec: "deepcopy_all n (h @ [ODict []]) ((x, length h) # m) (map snd items)
                = Some (h2, m2, ys)"
          and res: "h' = h2[length h := ODict (zip (map fst items) ys)]"
          by (auto split: option.splits)
        from "2.IH"(2) [OF None xl ODict rec]
        have "length (h @ [ODict []]) \<le> length h2"
          "\<forall>a < length (h @ [ODict []]). h2 ! a = (h @ [ODict []]) ! a" by blast+
        then show ?thesis unfolding res by (simp add: nth_append)
      qed (use "2.prems" None xl in simp_all)
    qed
  qed
next
  case (3 depth h m)
  then show ?case by simp
next
  case (4 depth h m x xs)
  from "4.prems" obtain h1 m1 y1 h2 m2 ys1 where
    a: "deepcopy depth h m x = Some (h1, m1, y1)"
    and b: "deepcopy_all depth h1 m1 xs = Some (h2, m2, ys1)"
    and res: "h' = h2"
    by (auto split: option.splits)
  from "4.IH"(1) [OF a] "4.IH"(2) [OF a refl refl b] show ?case unfolding res by auto
qed

text \<open>
  A copy does not depend on an object that it does not visit: when the addresses in
  \<open>X\<close> hold only addresses in \<open>X\<close> and the copy begins in \<open>X\<close>, another object at an
  address outside of \<open>X\<close> gives the same copy, beside that object.
\<close>

lemma deepcopy_apart:
  "deepcopy n h m x = Some (h', m', y) \<Longrightarrow> x \<in> X \<Longrightarrow> r \<notin> X \<Longrightarrow> r < length h \<Longrightarrow>
   \<forall>u \<in> X. u < length h \<and> set (object_children (h ! u)) \<subseteq> X \<Longrightarrow>
   deepcopy n (h[r := obj]) m x = Some (h'[r := obj], m', y)"
  "deepcopy_all n h m xs = Some (h', m', ys) \<Longrightarrow> set xs \<subseteq> X \<Longrightarrow> r \<notin> X \<Longrightarrow> r < length h \<Longrightarrow>
   \<forall>u \<in> X. u < length h \<and> set (object_children (h ! u)) \<subseteq> X \<Longrightarrow>
   deepcopy_all n (h[r := obj]) m xs = Some (h'[r := obj], m', ys)"
proof (induction n h m x and n h m xs arbitrary: h' m' y and h' m' ys
       rule: deepcopy_deepcopy_all.induct)
  case (1 h m x)
  then show ?case by simp
next
  case (2 n h m x)
  note X = "2.prems"(5)
  from "2.prems"(2) X have xl: "x < length h" and xc: "set (object_children (h ! x)) \<subseteq> X"
    by blast+
  from "2.prems"(2,3) have xr: "x \<noteq> r" by blast
  then have same: "h[r := obj] ! x = h ! x" by simp
  show ?case
  proof (cases "map_of m x")
    case (Some y0)
    with "2.prems"(1) show ?thesis by simp
  next
    case None
    have ext: "\<forall>u \<in> X. u < length (h @ [o']) \<and> set (object_children ((h @ [o']) ! u)) \<subseteq> X"
      for o' using X by (auto simp add: nth_append)
    have rl: "r < length (h @ [o'])" for o' :: py_object using "2.prems"(4) by simp
    have app: "(h @ [o'])[r := obj] = h[r := obj] @ [o']" for o'
      using "2.prems"(4) by (simp add: list_update_append1)
    have rn: "r \<noteq> length h" using "2.prems"(4) by simp
    show ?thesis
    proof (cases "h ! x")
      case (OList xs)
      from "2.prems"(1) None xl OList obtain h2 m2 ys where
        rec: "deepcopy_all n (h @ [OList []]) ((x, length h) # m) xs = Some (h2, m2, ys)"
        and res: "h' = h2[length h := OList ys]" "m' = m2" "y = length h"
        by (auto split: option.splits)
      from xc OList have xs: "set xs \<subseteq> X" by simp
      from "2.IH"(1) [OF None xl OList rec xs "2.prems"(3) rl ext]
      have "deepcopy_all n (h[r := obj] @ [OList []]) ((x, length h) # m) xs
            = Some (h2[r := obj], m2, ys)" unfolding app .
      then show ?thesis
        using None xl OList same res rn by (simp add: list_update_swap)
    next
      case (ODict items)
      from "2.prems"(1) None xl ODict obtain h2 m2 ys where
        rec: "deepcopy_all n (h @ [ODict []]) ((x, length h) # m) (map snd items)
              = Some (h2, m2, ys)"
        and res: "h' = h2[length h := ODict (zip (map fst items) ys)]" "m' = m2"
          "y = length h"
        by (auto split: option.splits)
      from xc ODict have xs: "set (map snd items) \<subseteq> X" by simp
      from "2.IH"(2) [OF None xl ODict rec xs "2.prems"(3) rl ext]
      have "deepcopy_all n (h[r := obj] @ [ODict []]) ((x, length h) # m) (map snd items)
            = Some (h2[r := obj], m2, ys)" unfolding app .
      then show ?thesis
        using None xl ODict same res rn by (simp add: list_update_swap)
    qed (use "2.prems"(1) None xl same in simp_all)
  qed
next
  case (3 depth h m)
  then show ?case by simp
next
  case (4 depth h m x xs)
  from "4.prems"(1) obtain h1 m1 y1 h2 m2 ys1 where
    a: "deepcopy depth h m x = Some (h1, m1, y1)"
    and b: "deepcopy_all depth h1 m1 xs = Some (h2, m2, ys1)"
    and res: "h' = h2" "m' = m2" "ys = y1 # ys1"
    by (auto split: option.splits)
  from "4.prems"(2) have x: "x \<in> X" and xs: "set xs \<subseteq> X" by simp_all
  from deepcopy_prefix(1) [OF a] have p: "length h \<le> length h1" "\<forall>a < length h. h1 ! a = h ! a"
    by blast+
  have X1: "\<forall>u \<in> X. u < length h1 \<and> set (object_children (h1 ! u)) \<subseteq> X"
    using "4.prems"(5) p by (metis less_le_trans)
  have r1: "r < length h1" using "4.prems"(4) p(1) by simp
  from "4.IH"(1) [OF a x "4.prems"(3,4,5)]
  have a': "deepcopy depth (h[r := obj]) m x = Some (h1[r := obj], m1, y1)" .
  from "4.IH"(2) [OF a refl refl b xs "4.prems"(3) r1 X1]
  have b': "deepcopy_all depth (h1[r := obj]) m1 xs = Some (h2[r := obj], m2, ys1)" by simp
  from a' b' res show ?case by simp
qed


subsection \<open>Assignments beside \<open>i18n_configs\<close>\<close>

lemma dict_setitem_apart:
  assumes "dict_setitem h c k v = Inr h'" and "c \<noteq> r"
  shows "dict_setitem (h[r := obj]) c k v = Inr (h'[r := obj])"
  using assms unfolding dict_setitem_def
  by (auto split: if_splits py_object.splits simp: list_update_swap)

lemma dict_setitem_length:
  assumes "dict_setitem h c k v = Inr h'"
  shows "length h' = length h" and "a \<noteq> c \<Longrightarrow> h' ! a = h ! a"
  using assms unfolding dict_setitem_def
  by (auto split: if_splits py_object.splits)

lemma attach_shared_apart:
  assumes att: "attach_shared h c p hooks = Inr h'" and c: "c \<noteq> r"
    and hk: "\<forall>a. hooks = Some a \<longrightarrow> a \<noteq> r"
  shows "attach_shared (h[r := obj]) c p hooks = Inr (h'[r := obj])"
proof -
  from att obtain h1 where s1: "dict_setitem h c ''plugins'' p = Inr h1"
    unfolding attach_shared_def by (auto split: sum.splits)
  note s1' = dict_setitem_apart [OF s1 c, of obj]
  show ?thesis
  proof (cases hooks)
    case None
    with att s1 s1' show ?thesis by (simp add: attach_shared_def)
  next
    case (Some a)
    with hk have ar: "a \<noteq> r" by simp
    show ?thesis
    proof (cases "a < length h1 \<and> truthy (h1 ! a)")
      case True
      with att s1 Some have s2: "dict_setitem h1 c ''hooks'' a = Inr h'"
        by (simp add: attach_shared_def)
      from dict_setitem_apart [OF s2 c, of obj] True ar s1' Some
      show ?thesis by (simp add: attach_shared_def)
    next
      case False
      with att s1 Some have "h' = h1" by (auto simp: attach_shared_def)
      with False ar s1' Some show ?thesis by (auto simp: attach_shared_def)
    qed
  qed
qed

text \<open>
  Once the copy is entered in \<open>i18n_configs\<close>, the assignments by way of the entry are
  the assignments to the copy.
\<close>

lemma language_setitem_entry:
  assumes "r < length h" and "h ! r = ODict its" and "map_of its l = Some c"
  shows "language_setitem h r l k v = dict_setitem h c k v"
  using assms by (simp add: language_setitem_def dict_getitem_def)

lemma attach_shared_language_entry:
  assumes r: "r < length h" and d: "h ! r = ODict its" and l: "map_of its l = Some c"
    and c: "c \<noteq> r"
  shows "attach_shared_language h r l p hooks = attach_shared h c p hooks"
proof (cases "dict_setitem h c ''plugins'' p")
  case (Inl err)
  then show ?thesis
    using language_setitem_entry [OF r d l]
    by (simp add: attach_shared_language_def attach_shared_def)
next
  case (Inr h1)
  from dict_setitem_length [OF Inr] c r d have "r < length h1" "h1 ! r = ODict its" by simp_all
  from language_setitem_entry [OF this l] language_setitem_entry [OF r d l] Inr
  show ?thesis
    by (simp add: attach_shared_language_def attach_shared_def split: option.splits)
qed

subsection \<open>The environment\<close>

lemma on_env_ok:
  "r < length h \<Longrightarrow> h ! r = ODict its \<Longrightarrow>
   \<forall>l \<in> set ls. \<exists>c items. map_of its l = Some c \<and> c < length h \<and> c \<noteq> r
       \<and> h ! c = ODict items \<Longrightarrow>
   \<exists>h'. on_env ls env r h = Inr h' \<and> length h' = length h
     \<and> (\<forall>a < length h.
           ((\<exists>l \<in> set ls. map_of its l = Some a) \<longrightarrow>
              (\<exists>items. h ! a = ODict items \<and> h' ! a = ODict (AList.update ''env'' env items)))
           \<and> (\<not> (\<exists>l \<in> set ls. map_of its l = Some a) \<longrightarrow> h' ! a = h ! a))"
proof (induction ls arbitrary: h)
  case Nil
  then show ?case by simp
next
  case (Cons l ls)
  note r = Cons.prems(1) and d = Cons.prems(2)
  from Cons.prems(3) obtain c items where
    c: "map_of its l = Some c" "c < length h" "c \<noteq> r" "h ! c = ODict items" by auto
  let ?h1 = "h[c := ODict (AList.update ''env'' env items)]"
  have set1: "language_setitem h r l ''env'' env = Inr ?h1"
    unfolding language_setitem_entry [OF r d c(1)] using c by (simp add: dict_setitem_def)
  have r1: "r < length ?h1" "?h1 ! r = ODict its" using r d c(3) by simp_all
  have pre: "\<forall>l' \<in> set ls. \<exists>c' items'. map_of its l' = Some c' \<and> c' < length ?h1
               \<and> c' \<noteq> r \<and> ?h1 ! c' = ODict items'"
  proof
    fix l' assume "l' \<in> set ls"
    with Cons.prems(3) obtain c' items' where
      c': "map_of its l' = Some c'" "c' < length h" "c' \<noteq> r" "h ! c' = ODict items'" by auto
    show "\<exists>c' items'. map_of its l' = Some c' \<and> c' < length ?h1 \<and> c' \<noteq> r
            \<and> ?h1 ! c' = ODict items'"
    proof (cases "c' = c")
      case True
      with c c' show ?thesis by simp
    next
      case False
      with c' show ?thesis by simp
    qed
  qed
  from Cons.IH [OF r1 pre] obtain h' where
    res1: "on_env ls env r ?h1 = Inr h'" and len: "length h' = length ?h1"
    and each: "\<forall>a < length ?h1.
           ((\<exists>l \<in> set ls. map_of its l = Some a) \<longrightarrow>
              (\<exists>items. ?h1 ! a = ODict items \<and> h' ! a = ODict (AList.update ''env'' env items)))
           \<and> (\<not> (\<exists>l \<in> set ls. map_of its l = Some a) \<longrightarrow> h' ! a = ?h1 ! a)"
    by blast
  have res: "on_env (l # ls) env r h = Inr h'" using set1 res1 by simp
  have "((\<exists>l' \<in> set (l # ls). map_of its l' = Some a) \<longrightarrow>
              (\<exists>items. h ! a = ODict items \<and> h' ! a = ODict (AList.update ''env'' env items)))
           \<and> (\<not> (\<exists>l' \<in> set (l # ls). map_of its l' = Some a) \<longrightarrow> h' ! a = h ! a)"
    if a: "a < length h" for a
  proof (cases "\<exists>l' \<in> set ls. map_of its l' = Some a")
    case True
    with each a obtain items1 where
      i1: "?h1 ! a = ODict items1" "h' ! a = ODict (AList.update ''env'' env items1)"
      by auto
    show ?thesis
    proof (cases "a = c")
      case ac: True
      with i1 c have "items1 = AList.update ''env'' env items" by simp
      with i1 ac c True show ?thesis by simp
    next
      case False
      with i1 True show ?thesis by auto
    qed
  next
    case False
    with each a have same: "h' ! a = ?h1 ! a" by simp
    show ?thesis
    proof (cases "a = c")
      case True
      with same c False show ?thesis by auto
    next
      case ac: False
      with same False c show ?thesis by auto
    qed
  qed
  with res len show ?case by simp
qed


subsection \<open>The loop and the whole part of \<open>on_config\<close>\<close>

text \<open>
  The loop over the languages returns. In the proof the store is seen as the store \<open>H\<close>
  in which \<open>i18n_configs\<close>, at address \<open>r\<close>, is as it was before the loop, with the
  dict of the entries put at \<open>r\<close>: the copies do not visit \<open>r\<close>, which is outside of
  the set \<open>X\<close> of what the configuration reaches.
\<close>

lemma copy_for_languages_ok:
  assumes cfg: "config < old" and fuel: "old < depth" and p: "p < old"
    and hk: "\<forall>a. hooks = Some a \<longrightarrow> a < old \<and> a \<noteq> config \<and> a \<noteq> r"
    and pc: "\<forall>u \<in> set (map snd popped). u < old"
    and r: "r < old" and rX: "r \<notin> X" and cX: "config \<in> X"
  shows "closed_heap H \<Longrightarrow> old_closed old H \<Longrightarrow> H ! config = ODict popped \<Longrightarrow>
     \<forall>u \<in> X. u < old \<and> set (object_children (H ! u)) \<subseteq> X \<Longrightarrow>
     eh = (case hooks of None \<Rightarrow> None | Some a \<Rightarrow> if truthy (H ! a) then Some a else None) \<Longrightarrow>
     copies_ok old config popped p eh H cs E \<Longrightarrow> distinct ls \<Longrightarrow>
     set ls \<inter> set (map fst cs) = {} \<Longrightarrow>
     \<exists>H' cs' E' its'.
       copy_for_languages depth ls r config p hooks (H[r := ODict its])
         = Some (Inr (H'[r := ODict its']))
       \<and> closed_heap H' \<and> length H \<le> length H' \<and> (\<forall>a < length H. H' ! a = H ! a)
       \<and> copies_ok old config popped p eh H' cs' E' \<and> map fst cs' = map fst cs @ ls
       \<and> (\<forall>l. l \<notin> set ls \<longrightarrow> map_of cs' l = map_of cs l)
       \<and> (\<forall>l. map_of its' l = (if l \<in> set ls then map_of cs' l else map_of its l))"
proof (induction ls arbitrary: H cs E its)
  case Nil
  then show ?case by auto
next
  case (Cons l ls)
  note ch = Cons.prems(1) and oc = Cons.prems(2) and d = Cons.prems(3) and X = Cons.prems(4)
    and eh = Cons.prems(5) and inv = Cons.prems(6)
  from oc have ol: "old \<le> length H" unfolding old_closed_def by blast
  have hk0: "\<forall>a. hooks = Some a \<longrightarrow> a < old \<and> a \<noteq> config" using hk by blast
  have hkr: "\<forall>a. hooks = Some a \<longrightarrow> a \<noteq> r" using hk by blast
  from copy_one [OF ch oc cfg d fuel p hk0]
  obtain h1 M h2 where
    dc: "deepcopy depth H [] config = Some (h1, M, length H)"
    and att: "attach_shared h1 (length H) p hooks = Inr h2"
    and l2: "length H < length h2" and k2: "\<forall>a < length H. h2 ! a = H ! a"
    and ch2: "closed_heap h2"
    and ok2: "copy_ok old config popped p eh h2 (length H) (length h2)"
    unfolding eh by blast
  let ?c = "length H"
  let ?cs1 = "AList.update l ?c cs"
  let ?E1 = "E(?c := length h2)"
  let ?its1 = "AList.update l ?c its"
  \<comment> \<open>the steps of the body, with the entries at \<open>r\<close>\<close>
  have rH: "r < length H" using r ol by simp
  have XH: "\<forall>u \<in> X. u < length H \<and> set (object_children (H ! u)) \<subseteq> X"
    using X ol by (metis less_le_trans)
  from deepcopy_prefix(1) [OF dc] have l1: "length H \<le> length h1" by blast
  have r1: "r < length h1" using rH l1 by simp
  have dc': "deepcopy depth (H[r := ODict its]) [] config
               = Some (h1[r := ODict its], M, ?c)"
    by (rule deepcopy_apart(1) [OF dc cX rX rH XH])
  have enter: "dict_setitem (h1[r := ODict its]) r l ?c = Inr (h1[r := ODict ?its1])"
    using r1 by (simp add: dict_setitem_def)
  have cr: "?c \<noteq> r" using rH by simp
  have entry: "map_of ?its1 l = Some ?c" by (simp add: update_conv')
  have "attach_shared_language (h1[r := ODict ?its1]) r l p hooks
          = attach_shared (h1[r := ODict ?its1]) ?c p hooks"
    by (rule attach_shared_language_entry [OF _ _ entry cr]) (simp_all add: r1)
  also have "\<dots> = Inr (h2[r := ODict ?its1])"
    by (rule attach_shared_apart [OF att cr hkr])
  finally have att': "attach_shared_language (h1[r := ODict ?its1]) r l p hooks
                        = Inr (h2[r := ODict ?its1])" .
  \<comment> \<open>the copies made so far\<close>
  have lnew: "l \<notin> set (map fst cs)" using Cons.prems(8) by simp
  have m1: "map_of ?cs1 = (map_of cs)(l \<mapsto> ?c)" by (rule update_conv')
  have keys1: "map fst ?cs1 = map fst cs @ [l]" by (rule keys_update_new [OF lnew])
  have oc2: "old_closed old h2"
    using old_closed_same [OF oc _ k2] l2 by simp
  have d2: "h2 ! config = ODict popped" using k2 cfg ol d by simp
  have X2: "\<forall>u \<in> X. u < old \<and> set (object_children (h2 ! u)) \<subseteq> X"
    using X k2 ol by (metis less_le_trans)
  have eh2: "eh = (case hooks of None \<Rightarrow> None
                   | Some a \<Rightarrow> if truthy (h2 ! a) then Some a else None)"
    unfolding eh using hk k2 ol by (cases hooks) auto
  from inv have
    i1: "\<forall>l c. map_of cs l = Some c \<longrightarrow>
           old \<le> c \<and> c < E c \<and> E c \<le> length H \<and> copy_ok old config popped p eh H c (E c)"
    and i2: "\<forall>l c l' c'. map_of cs l = Some c \<and> map_of cs l' = Some c' \<and> l \<noteq> l'
               \<longrightarrow> E c \<le> c' \<or> E c' \<le> c"
    unfolding copies_ok_def by blast+
  have same2: "\<forall>a < length H. a \<noteq> config \<longrightarrow> h2 ! a = H ! a" using k2 by simp
  have part1: "old \<le> c0 \<and> c0 < ?E1 c0 \<and> ?E1 c0 \<le> length h2
          \<and> copy_ok old config popped p eh h2 c0 (?E1 c0)"
    if a: "map_of ?cs1 l0 = Some c0" for l0 c0
    proof (cases "l0 = l")
      case True
      with a m1 have "c0 = ?c" by simp
      with ol l2 ok2 show ?thesis by simp
    next
      case False
      with a m1 have "map_of cs l0 = Some c0" by simp
      with i1 have o: "old \<le> c0" "c0 < E c0" "E c0 \<le> length H"
        "copy_ok old config popped p eh H c0 (E c0)" by blast+
      then have ne: "c0 \<noteq> ?c" by simp
      have "copy_ok old config popped p eh h2 c0 (E c0)"
        by (rule copy_ok_stays [OF o(4,3,1) cfg oc pc same2]) (simp_all add: d d2)
      with o ne l2 show ?thesis by simp
    qed
  have part2: "?E1 c0 \<le> c0' \<or> ?E1 c0' \<le> c0"
    if a: "map_of ?cs1 l0 = Some c0 \<and> map_of ?cs1 l0' = Some c0' \<and> l0 \<noteq> l0'"
    for l0 c0 l0' c0'
  proof -
    have new_old: "?E1 c' \<le> ?c" if "map_of cs l' = Some c'" for l' c'
    proof -
      from i1 that have "c' < E c'" "E c' \<le> length H" by blast+
      then show ?thesis by simp
    qed
    show "?E1 c0 \<le> c0' \<or> ?E1 c0' \<le> c0"
    proof (cases "l0 = l")
      case True
      with a m1 have c0: "c0 = ?c" and "map_of cs l0' = Some c0'" by auto
      with new_old show ?thesis by blast
    next
      case False
      with a m1 have o: "map_of cs l0 = Some c0" by simp
      show ?thesis
      proof (cases "l0' = l")
        case True
        with a m1 have "c0' = ?c" by simp
        with new_old [OF o] show ?thesis by blast
      next
        case f: False
        with a m1 have o': "map_of cs l0' = Some c0'" by simp
        from i1 o o' have "c0 < length H" "c0' < length H" by fastforce+
        moreover from i2 o o' a have "E c0 \<le> c0' \<or> E c0' \<le> c0" by blast
        ultimately show ?thesis by simp
      qed
    qed
  qed
  have inv1: "copies_ok old config popped p eh h2 ?cs1 ?E1"
    unfolding copies_ok_def using part1 part2 by blast
  have dist: "distinct ls" and disj: "set ls \<inter> set (map fst ?cs1) = {}"
    and lls: "l \<notin> set ls"
    using Cons.prems(7,8) unfolding keys1 by auto
  from Cons.IH [OF ch2 oc2 d2 X2 eh2 inv1 dist disj, of ?its1]
  obtain H' cs' E' its' where
    run: "copy_for_languages depth ls r config p hooks (h2[r := ODict ?its1])
          = Some (Inr (H'[r := ODict its']))"
    and r1: "closed_heap H'" "length h2 \<le> length H'" "\<forall>a < length h2. H' ! a = h2 ! a"
    and r2: "copies_ok old config popped p eh H' cs' E'"
    and r3: "map fst cs' = map fst ?cs1 @ ls"
    and r4: "\<forall>l0. l0 \<notin> set ls \<longrightarrow> map_of cs' l0 = map_of ?cs1 l0"
    and r5: "\<forall>l0. map_of its' l0 = (if l0 \<in> set ls then map_of cs' l0 else map_of ?its1 l0)"
    by blast
  have "copy_for_languages depth (l # ls) r config p hooks (H[r := ODict its])
          = Some (Inr (H'[r := ODict its']))"
    using dc' enter att' run by simp
  moreover have "length H \<le> length H'" using l2 r1(2) by simp
  moreover have "\<forall>a < length H. H' ! a = H ! a" using k2 r1(3) l2 by simp
  moreover have "map fst cs' = map fst cs @ l # ls" using r3 keys1 by simp
  moreover have "\<forall>l0. l0 \<notin> set (l # ls) \<longrightarrow> map_of cs' l0 = map_of cs l0"
    using r4 m1 by simp
  moreover have "\<forall>l0. map_of its' l0
                   = (if l0 \<in> set (l # ls) then map_of cs' l0 else map_of its l0)"
  proof
    fix l0
    show "map_of its' l0 = (if l0 \<in> set (l # ls) then map_of cs' l0 else map_of its l0)"
    proof (cases "l0 = l")
      case True
      with r5 lls have "map_of its' l0 = map_of ?its1 l" by simp
      also have "\<dots> = map_of ?cs1 l" using m1 entry by simp
      also have "\<dots> = map_of cs' l" using r4 lls by simp
      finally show ?thesis using True by simp
    next
      case False
      with r5 show ?thesis by (simp add: update_conv')
    qed
  qed
  ultimately show ?case using r1(1) r2 by blast
qed



text \<open>
  What an address reaches when an object has fewer elements, it reaches with more of
  them; and in a closed store what is reached holds addresses of the store that are
  reached.
\<close>

lemma reach_fewer_children:
  assumes "c < length h"
    and "set (object_children obj) \<subseteq> set (object_children obj')"
  shows "reach (h[c := obj]) a \<subseteq> reach (h[c := obj']) a"
proof (rule reach_subset)
  show "a \<in> reach (h[c := obj']) a" by (rule reach_self)
next
  fix u v
  assume u: "u \<in> reach (h[c := obj']) a" "u < length (h[c := obj])"
    and v: "v \<in> set (object_children (h[c := obj] ! u))"
  have "v \<in> set (object_children (h[c := obj'] ! u))"
  proof (cases "u = c")
    case True
    with v assms show ?thesis by auto
  next
    case False
    with v show ?thesis by simp
  qed
  moreover from u(2) have "u < length (h[c := obj'])" by simp
  ultimately show "v \<in> reach (h[c := obj']) a" using u(1) by (blast intro: reach_child)
qed

lemma reach_closed:
  assumes "closed_heap h" and "a < length h"
  shows "\<forall>u \<in> reach h a. u < length h \<and> set (object_children (h ! u)) \<subseteq> reach h a"
proof
  fix u assume u: "u \<in> reach h a"
  have "reach h a \<subseteq> {b. b < length h}"
  proof (rule reach_subset)
    show "a \<in> {b. b < length h}" using assms(2) by simp
  next
    fix u v assume "u < length h" "v \<in> set (object_children (h ! u))"
    with assms(1) show "v \<in> {b. b < length h}" unfolding closed_heap_iff by blast
  qed
  with u have ul: "u < length h" by blast
  have "v \<in> reach h a" if "v \<in> set (object_children (h ! u))" for v
    using u ul that by (rule reach_child)
  with ul show "u < length h \<and> set (object_children (h ! u)) \<subseteq> reach h a" by blast
qed

text \<open>
  The whole part of \<open>on_config\<close>, on a closed store whose configuration is a dict with
  plugins and reaches \<open>i18n_configs\<close>, the dict at address \<open>r\<close>, by its plugins only.
\<close>

lemma localized_copies_ok:
  assumes ch: "closed_heap h" and cfg: "config < length h" and d: "h ! config = ODict items"
    and pl: "map_of items ''plugins'' = Some p"
    and hk: "map_of items ''hooks'' \<noteq> Some config"
    and fuel: "length h < depth" and dist: "distinct all"
    and r: "r < length h" and dr: "h ! r = ODict its0"
    and rX: "r \<notin> reach (h[config := ODict (AList.delete ''plugins'' items)]) config"
  shows "\<exists>H4 cs E its.
           localized_copies depth all r config h = Some (Inr (H4[r := ODict its]))
           \<and> map fst cs = all \<and> closed_heap H4 \<and> length h \<le> length H4
           \<and> (\<forall>a < length h. a \<noteq> config \<longrightarrow> H4 ! a = h ! a)
           \<and> H4 ! config
               = ODict (attach_items p
                   (case map_of items ''hooks'' of None \<Rightarrow> None
                    | Some a \<Rightarrow> if truthy (h ! a) then Some a else None)
                   (AList.delete ''plugins'' (AList.delete ''hooks'' items)))
           \<and> copies_ok (length h) config
               (AList.delete ''plugins'' (AList.delete ''hooks'' items)) p
               (case map_of items ''hooks'' of None \<Rightarrow> None
                | Some a \<Rightarrow> if truthy (h ! a) then Some a else None)
               H4 cs E
           \<and> (\<forall>l. map_of its l = (if l \<in> set all then map_of cs l else map_of its0 l))"
proof -
  let ?hooks = "map_of items ''hooks''"
  let ?popped = "AList.delete ''plugins'' (AList.delete ''hooks'' items)"
  let ?eh = "case ?hooks of None \<Rightarrow> None | Some a \<Rightarrow> if truthy (h ! a) then Some a else None"
  let ?old = "length h"
  let ?hP = "h[config := ODict ?popped]"
  let ?hQ = "h[config := ODict (AList.delete ''plugins'' items)]"
  let ?X = "reach ?hP config"
  have items_closed: "\<forall>b \<in> set (map snd items). b < length h"
    using ch cfg d unfolding closed_heap_iff by fastforce
  have pc: "\<forall>u \<in> set (map snd ?popped). u < ?old"
    using items_closed set_snd_delete [of "''plugins''" "AList.delete ''hooks'' items"]
      set_snd_delete [of "''hooks''" items] by blast
  have p: "p < ?old"
    using pl items_closed by (metis map_of_SomeD set_zip_rightD zip_map_fst_snd)
  have hk': "\<forall>a. ?hooks = Some a \<longrightarrow> a < ?old \<and> a \<noteq> config"
    using hk items_closed by (metis map_of_SomeD set_zip_rightD zip_map_fst_snd)
  \<comment> \<open>\<open>i18n_configs\<close> is neither the configuration nor the hooks, and is not visited\<close>
  have rc: "r \<noteq> config" using rX reach_self [of config ?hQ] by auto
  have hkr: "a \<noteq> r" if "?hooks = Some a" for a
  proof
    assume "a = r"
    with that have "map_of (AList.delete ''plugins'' items) ''hooks'' = Some r"
      by (simp add: delete_conv')
    from map_of_SomeD [OF this]
    have "(''hooks'', r) \<in> set (AList.delete ''plugins'' items)" .
    then have "r \<in> snd ` set (AList.delete ''plugins'' items)" by force
    then have "r \<in> set (object_children (?hQ ! config))"
      using cfg by simp
    then have "r \<in> reach ?hQ config"
      using cfg by (intro reach_child [OF reach_self, of config]) simp_all
    with rX show False by simp
  qed
  have sub: "set (map snd ?popped) \<subseteq> set (map snd (AList.delete ''plugins'' items))"
  proof -
    have "AList.delete ''plugins'' (AList.delete ''hooks'' items)
          = AList.delete ''hooks'' (AList.delete ''plugins'' items)"
      by (rule delete_twist)
    then show ?thesis
      using set_snd_delete [of "''hooks''" "AList.delete ''plugins'' items"] by simp
  qed
  have rXP: "r \<notin> ?X"
    using reach_fewer_children [OF cfg, of "ODict ?popped"
        "ODict (AList.delete ''plugins'' items)" config] sub rX by auto
  have hk'': "\<forall>a. ?hooks = Some a \<longrightarrow> a < ?old \<and> a \<noteq> config \<and> a \<noteq> r"
    using hk' hkr by blast
  \<comment> \<open>the two pops\<close>
  have pops: "(case dict_get h config ''hooks'' of
                 None \<Rightarrow> (h, None)
               | Some a \<Rightarrow> (case dict_pop h config ''hooks'' of
                              Inl err \<Rightarrow> (h, None)
                            | Inr (h', v) \<Rightarrow> (h', Some v)))
              = (h[config := ODict (AList.delete ''hooks'' items)], ?hooks)"
  proof (cases ?hooks)
    case None
    then have "AList.delete ''hooks'' items = items" by (rule delete_absent)
    with None cfg d show ?thesis
      by (simp add: dict_get_def) (metis list_update_id)
  next
    case (Some a)
    with cfg d show ?thesis by (simp add: dict_get_def dict_pop_def)
  qed
  have pl1: "map_of (AList.delete ''hooks'' items) ''plugins'' = Some p"
    using pl by (simp add: delete_conv')
  have pop2: "dict_pop (h[config := ODict (AList.delete ''hooks'' items)]) config ''plugins''
              = Inr (?hP, p)"
    using cfg pl1 by (simp add: dict_pop_def)
  \<comment> \<open>the store of the loop\<close>
  have chP: "closed_heap ?hP"
    using ch pc by (intro closed_heap_update) simp_all
  have ocP: "old_closed ?old ?hP"
    using closed_heap_old_closed [OF chP] by simp
  have dP: "?hP ! config = ODict ?popped" using cfg by simp
  have ehP: "?eh = (case ?hooks of None \<Rightarrow> None
                    | Some a \<Rightarrow> if truthy (?hP ! a) then Some a else None)"
    using hk' by (cases ?hooks) auto
  have inv0: "copies_ok ?old config ?popped p ?eh ?hP [] (\<lambda>c. c)"
    by (simp add: copies_ok_def)
  have disj0: "set all \<inter> set (map fst ([] :: (string \<times> addr) list)) = {}" by simp
  have XP: "\<forall>u \<in> ?X. u < ?old \<and> set (object_children (?hP ! u)) \<subseteq> ?X"
    using reach_closed [OF chP, of config] cfg by simp
  have "?hP ! r = ODict its0" using rc dr by simp
  then have start: "?hP[r := ODict its0] = ?hP"
    by (metis list_update_id)
  from copy_for_languages_ok [OF cfg fuel p hk'' pc r rXP reach_self chP ocP dP XP ehP inv0
      dist disj0, of its0]
  obtain H3 cs E its where
    loop: "copy_for_languages depth all r config p ?hooks ?hP = Some (Inr (H3[r := ODict its]))"
    and ch3: "closed_heap H3" and l3: "length ?hP \<le> length H3"
    and k3: "\<forall>a < length ?hP. H3 ! a = ?hP ! a"
    and inv3: "copies_ok ?old config ?popped p ?eh H3 cs E"
    and keys: "map fst cs = all"
    and ent: "\<forall>l. map_of its l = (if l \<in> set all then map_of cs l else map_of its0 l)"
    unfolding start by auto
  \<comment> \<open>the configuration gets the plugins and the hooks back\<close>
  have cfg3: "config < length H3" using cfg l3 by simp
  have d3: "H3 ! config = ODict ?popped" using k3 cfg dP by simp
  have hk3: "\<forall>a. ?hooks = Some a \<longrightarrow> a < length H3 \<and> a \<noteq> config"
    using hk' l3 by auto
  have eh3: "(case ?hooks of None \<Rightarrow> None
              | Some a \<Rightarrow> if truthy (H3 ! a) then Some a else None) = ?eh"
    using hk' k3 by (cases ?hooks) auto
  let ?H4 = "H3[config := ODict (attach_items p ?eh ?popped)]"
  have att: "attach_shared H3 config p ?hooks = Inr ?H4"
    using attach_shared_dict [OF cfg3 d3 hk3, of p] unfolding eh3 .
  have att': "attach_shared (H3[r := ODict its]) config p ?hooks = Inr (?H4[r := ODict its])"
    by (rule attach_shared_apart [OF att rc [symmetric]]) (use hkr in blast)
  have result: "localized_copies depth all r config h = Some (Inr (?H4[r := ODict its]))"
    unfolding localized_copies_def pops using pop2 loop att' by simp
  have eh_old: "\<forall>a. ?eh = Some a \<longrightarrow> a < ?old" using hk' by (cases ?hooks) auto
  have ch4: "closed_heap ?H4"
  proof (rule closed_heap_update [OF ch3], intro ballI)
    fix b assume "b \<in> set (object_children (ODict (attach_items p ?eh ?popped)))"
    with set_snd_attach_items [of p ?eh ?popped]
    have "b = p \<or> ?eh = Some b \<or> b \<in> set (map snd ?popped)"
      by (cases ?eh) auto
    with p eh_old pc l3 show "b < length H3" by auto
  qed
  have keep: "\<forall>a < length h. a \<noteq> config \<longrightarrow> ?H4 ! a = h ! a"
    using k3 by simp
  have h4c: "?H4 ! config = ODict (attach_items p ?eh ?popped)" using cfg3 by simp
  have oc3: "old_closed ?old H3"
    using old_closed_same [OF ocP l3 k3] .
  have inv4: "copies_ok ?old config ?popped p ?eh ?H4 cs E"
  proof -
    from inv3 have
      i1: "\<forall>l c. map_of cs l = Some c \<longrightarrow>
             ?old \<le> c \<and> c < E c \<and> E c \<le> length H3
             \<and> copy_ok ?old config ?popped p ?eh H3 c (E c)"
      and i2: "\<forall>l c l' c'. map_of cs l = Some c \<and> map_of cs l' = Some c' \<and> l \<noteq> l'
                 \<longrightarrow> E c \<le> c' \<or> E c' \<le> c"
      unfolding copies_ok_def by blast+
    have "copy_ok ?old config ?popped p ?eh ?H4 c (E c)"
      if "map_of cs l = Some c" for l c
    proof -
      from i1 that have o: "?old \<le> c" "E c \<le> length H3"
        "copy_ok ?old config ?popped p ?eh H3 c (E c)" by blast+
      show ?thesis
        by (rule copy_ok_stays [OF o(3,2,1) cfg oc3 pc]) (simp_all add: d3 cfg3)
    qed
    with i1 i2 show ?thesis unfolding copies_ok_def by simp
  qed
  from result keys ch4 l3 keep h4c inv4 ent show ?thesis
    by (intro exI [of _ ?H4] exI [of _ cs] exI [of _ E] exI [of _ its]) simp
qed



subsection \<open>The fields of a configuration that are its own\<close>

lemma own_fields_update:
  "k \<in> {''plugins'', ''hooks'', ''env''} \<Longrightarrow> own_fields (AList.update k v items) = own_fields items"
  by (induction items) (auto simp: own_fields_def)

lemma own_fields_delete:
  "k \<in> {''plugins'', ''hooks'', ''env''} \<Longrightarrow> own_fields (AList.delete k items) = own_fields items"
  by (induction items) (auto simp: own_fields_def)

lemma own_fields_attach_items: "own_fields (attach_items p hooks items) = own_fields items"
  by (cases hooks) (simp_all add: attach_items_def own_fields_update)

lemma set_own_fields: "set (map snd (own_fields items)) \<subseteq> set (map snd items)"
  by (auto simp: own_fields_def)

lemma similar_own_fields:
  assumes "similar R (ODict items) (ODict items')"
  shows "similar R (ODict (own_fields items)) (ODict (own_fields items'))"
proof -
  from assms have k: "map fst items = map fst items'"
    and r: "list_all2 R (map snd items) (map snd items')" by simp_all
  from k r have "map fst (own_fields items) = map fst (own_fields items')
        \<and> list_all2 R (map snd (own_fields items)) (map snd (own_fields items'))"
  proof (induction items arbitrary: items')
    case Nil
    then show ?case by (simp add: own_fields_def)
  next
    case (Cons it items)
    from Cons.prems(1) obtain it' rest where i': "items' = it' # rest" by (cases items') auto
    with Cons.prems have "fst it = fst it'" "map fst items = map fst rest"
      "R (snd it) (snd it')" "list_all2 R (map snd items) (map snd rest)" by simp_all
    with Cons.IH [of rest] i' show ?case
      by (cases it; cases it') (auto simp: own_fields_def)
  qed
  then show ?thesis by simp
qed

lemma unshared_other: "a \<noteq> c \<Longrightarrow> unshared h c ! a = h ! a"
  by (simp add: unshared_def split: py_object.splits)

lemma unshared_length: "length (unshared h c) = length h"
  by (simp add: unshared_def split: py_object.splits)

lemma unshared_dict:
  "c < length h \<Longrightarrow> h ! c = ODict items \<Longrightarrow> unshared h c ! c = ODict (own_fields items)"
  by (simp add: unshared_def)

lemma unshared_write: "a \<noteq> c \<Longrightarrow> unshared (h[a := obj]) c = (unshared h c)[a := obj]"
  by (simp add: unshared_def list_update_swap split: py_object.splits)

text \<open>
  A write to an object that a configuration does not reach by its own fields does not
  change what can be seen of these fields.
\<close>

lemma view_unshared_write:
  assumes "a \<notin> reach (unshared h c) c"
  shows "view n (unshared (h[a := obj]) c) c = view n (unshared h c) c"
proof -
  from assms reach_self [of c "unshared h c"] have "a \<noteq> c" by auto
  then show ?thesis
    using assms by (simp add: unshared_write view_write_unreachable)
qed

text \<open>
  Addresses of two stores that are related by a relation under which related addresses
  hold similar objects, one in each store, have the same view at every depth.
\<close>

lemma view_similar2:
  assumes bis: "\<And>a b. R a b \<Longrightarrow> (a < length G \<longleftrightarrow> b < length K)
                  \<and> (a < length G \<longrightarrow> similar R (G ! a) (K ! b))"
  shows "R a b \<Longrightarrow> view n G a = view n K b"
proof (induction n arbitrary: a b)
  case 0
  show ?case by simp
next
  case (Suc n)
  from bis [OF Suc.prems] have lt: "a < length G \<longleftrightarrow> b < length K"
    and sim: "a < length G \<longrightarrow> similar R (G ! a) (K ! b)" by blast+
  show ?case
  proof (cases "a < length G")
    case False
    with lt show ?thesis by simp
  next
    case True
    with lt have b: "b < length K" by simp
    from True sim have s: "similar R (G ! a) (K ! b)" by simp
    show ?thesis
    proof (cases "G ! a")
      case (OList xs)
      with s obtain ys where B: "K ! b = OList ys" and r: "list_all2 R xs ys"
        by (cases "K ! b") simp_all
      from r have "map (view n G) xs = map (view n K) ys"
        by (induction rule: list_all2_induct) (simp_all add: Suc.IH)
      with True b OList B show ?thesis by simp
    next
      case (ODict items)
      with s obtain items' where B: "K ! b = ODict items'"
        and k: "map fst items = map fst items'"
        and r: "list_all2 R (map snd items) (map snd items')"
        by (cases "K ! b") simp_all
      from r have v: "map (view n G) (map snd items) = map (view n K) (map snd items')"
        by (induction rule: list_all2_induct) (simp_all add: Suc.IH)
      have "map (\<lambda>(k, v). (k, view n J v)) its
            = zip (map fst its) (map (view n J) (map snd its))"
        for its :: "(string \<times> addr) list" and J
        by (induction its) auto
      with k v have "map (\<lambda>(k, v). (k, view n G v)) items
                     = map (\<lambda>(k, v). (k, view n K v)) items'" by simp
      with True b ODict B show ?thesis by simp
    next
      case ONone
      with s True b show ?thesis by simp
    next
      case (OBool x)
      with s True b show ?thesis by simp
    next
      case (OInt x)
      with s True b show ?thesis by simp
    next
      case (OStr x)
      with s True b show ?thesis by simp
    qed
  qed
qed



subsection \<open>What a copy and the configuration reach by their own fields\<close>

lemma atomic_no_children: "atomic obj \<Longrightarrow> object_children obj = []"
  by (cases obj) simp_all

lemma list_all2_right:
  assumes "list_all2 P xs ys" and "y \<in> set ys"
  shows "\<exists>x \<in> set xs. P x y"
  using assms by (induction rule: list_all2_induct) auto

text \<open>
  A copy reaches by its own fields only its own objects, from its address \<open>c\<close> up to
  \<open>e\<close>, and atomic objects.
\<close>

lemma copy_own_reach:
  assumes ok: "copy_ok old config popped p eh H c e"
    and ce: "old \<le> c" "c < e" "e \<le> length H" and cr: "c \<in> roots"
    and rt: "\<forall>u \<in> roots. (u = c \<or> u < c \<or> e \<le> u) \<and> \<not> atomic (H ! u)"
    and r: "r < old" and dr: "\<not> atomic (H ! r)"
    and pc: "\<forall>u \<in> set (map snd popped). u < old"
    and bes: "beside r roots H g"
  shows "reach (unshared g c) c \<subseteq> {a. c \<le> a \<and> a < e} \<union> {a. atomic (g ! a)}"
proof -
  from ok obtain M items where
    hc: "H ! c = ODict (attach_items p eh items)"
    and simc: "similar (copied H M) (ODict popped) (ODict items)"
    and memo: "\<forall>a b. map_of M a = Some b \<longrightarrow> c \<le> b \<and> b < e"
    unfolding copy_ok_def by blast
  from ok have ch1: "\<forall>a. c \<le> a \<and> a < e \<longrightarrow>
         (\<forall>b \<in> set (object_children (H ! a)).
            (b < c \<and> atomic (H ! b)) \<or> (c \<le> b \<and> b < e)
            \<or> (a = c \<and> (b = p \<or> eh = Some b)))"
    unfolding copy_ok_def by blast
  from bes have len: "length g = length H" unfolding beside_def by blast
  have atom: "g ! b = H ! b" if "atomic (H ! b)" "b < length H" for b
  proof -
    from that(1) dr have "b \<noteq> r" by auto
    moreover from that(1) rt have "b \<notin> roots" by auto
    ultimately show ?thesis using bes that(2) unfolding beside_def by simp
  qed
  have inner: "g ! u = H ! u" if "c \<le> u" "u < e" "u \<noteq> c" for u
  proof -
    from that ce r have "u \<noteq> r" by simp
    moreover from that rt have "u \<notin> roots" by auto
    ultimately show ?thesis using bes that(2) ce(3) unfolding beside_def by simp
  qed
  have cl: "c < length H" using ce by simp
  from bes cr cl ce r obtain its its' where
    "H ! c = ODict its" "g ! c = ODict its'" "own_fields its' = own_fields its"
    unfolding beside_def by (metis less_le_trans nat_neq_iff)
  with hc have gc: "g ! c = ODict its'" and own: "own_fields its' = own_fields items"
    by (simp_all add: own_fields_attach_items)
  have root: "unshared g c ! c = ODict (own_fields items)"
    using unshared_dict [of c g its'] cl len gc own by simp
  show ?thesis
  proof (rule reach_subset)
    show "c \<in> {a. c \<le> a \<and> a < e} \<union> {a. atomic (g ! a)}" using ce by simp
  next
    fix u v
    assume u: "u \<in> {a. c \<le> a \<and> a < e} \<union> {a. atomic (g ! a)}"
      and v: "v \<in> set (object_children (unshared g c ! u))"
    show "v \<in> {a. c \<le> a \<and> a < e} \<union> {a. atomic (g ! a)}"
    proof (cases "u = c")
      case True
      with v root have "v \<in> set (map snd (own_fields items))" by simp
      with set_own_fields have vi: "v \<in> set (map snd items)" by blast
      from simc have "list_all2 (copied H M) (map snd popped) (map snd items)" by simp
      from list_all2_right [OF this vi] obtain v0 where
        v0: "v0 \<in> set (map snd popped)" "copied H M v0 v" by blast
      show ?thesis
      proof (cases "atomic (H ! v0)")
        case at: True
        with v0(2) have "v = v0" by (simp add: copied_def)
        moreover from v0(1) pc ce have "v0 < length H" by fastforce
        ultimately show ?thesis using atom [OF at] at by simp
      next
        case False
        with v0(2) have "map_of M v0 = Some v" by (simp add: copied_def)
        with memo show ?thesis by blast
      qed
    next
      case nc: False
      then have same: "unshared g c ! u = g ! u" by (rule unshared_other)
      show ?thesis
      proof (cases "c \<le> u \<and> u < e")
        case True
        with nc inner have "g ! u = H ! u" by simp
        with v same have "v \<in> set (object_children (H ! u))" by simp
        with ch1 True nc have "(v < c \<and> atomic (H ! v)) \<or> (c \<le> v \<and> v < e)" by blast
        then show ?thesis
        proof
          assume a: "v < c \<and> atomic (H ! v)"
          with cl have "v < length H" by simp
          with a atom show ?thesis by simp
        qed simp
      next
        case False
        with u have "atomic (g ! u)" by simp
        with v same show ?thesis by (simp add: atomic_no_children)
      qed
    qed
  qed
qed

text \<open>
  The configuration reaches by its own fields only what it reached when hooks and
  plugins were popped, in the set \<open>X\<close> of old objects without \<open>i18n_configs\<close>.
\<close>

lemma base_own_reach:
  assumes X: "\<forall>u \<in> X. u < old \<and> set (object_children (hP ! u)) \<subseteq> X"
    and cX: "config \<in> X" and rX: "r \<notin> X"
    and dP: "hP ! config = ODict popped"
    and keep: "\<forall>a < old. a \<noteq> config \<longrightarrow> H ! a = hP ! a"
    and hc: "H ! config = ODict (attach_items p eh popped)"
    and ol: "old \<le> length H"
    and roots: "\<forall>c \<in> roots. old \<le> c"
    and bes: "beside r roots H g"
  shows "reach (unshared g config) config \<subseteq> X"
proof (rule reach_subset [OF cX])
  fix u v
  assume u: "u \<in> X" and v: "v \<in> set (object_children (unshared g config ! u))"
  from u X have uo: "u < old" and uc: "set (object_children (hP ! u)) \<subseteq> X" by blast+
  from u rX have "u \<noteq> r" by blast
  moreover from uo roots have "u \<notin> roots" by auto
  ultimately have gu: "g ! u = H ! u" using bes uo ol unfolding beside_def by simp
  from bes have len: "length g = length H" unfolding beside_def by blast
  show "v \<in> X"
  proof (cases "u = config")
    case True
    with gu hc uo ol len have "unshared g config ! config = ODict (own_fields popped)"
      using unshared_dict [of config g "attach_items p eh popped"]
      by (simp add: own_fields_attach_items)
    with v True have "v \<in> set (map snd (own_fields popped))" by simp
    with set_own_fields have "v \<in> set (map snd popped)" by blast
    with uc True dP show ?thesis by auto
  next
    case False
    with gu keep uo have "unshared g config ! u = hP ! u" by (simp add: unshared_other)
    with v uc show ?thesis by auto
  qed
qed

text \<open>
  The configuration and a copy have, by their own fields, the same view at every depth.
\<close>

lemma copy_own_view:
  assumes ok: "copy_ok old config popped p eh H c e"
    and ce: "old \<le> c" "c < e" "e \<le> length H" and cr: "c \<in> roots"
    and rt: "\<forall>u \<in> roots. (u = c \<or> u < c \<or> e \<le> u) \<and> \<not> atomic (H ! u) \<and> old \<le> u"
    and r: "r < old" and dr: "\<not> atomic (H ! r)"
    and X: "\<forall>u \<in> X. u < old \<and> set (object_children (hP ! u)) \<subseteq> X"
    and cX: "config \<in> X" and rX: "r \<notin> X"
    and dP: "hP ! config = ODict popped"
    and keep: "\<forall>a < old. a \<noteq> config \<longrightarrow> H ! a = hP ! a"
    and hcfg: "H ! config = ODict (attach_items p eh popped)"
    and bes: "beside r roots H g"
  shows "view n (unshared g c) c = view n (unshared g config) config"
proof -
  from ok obtain M items where
    hc: "H ! c = ODict (attach_items p eh items)"
    and root: "map_of M config = Some c"
    and simc: "similar (copied H M) (ODict popped) (ODict items)"
    and memo: "\<forall>a b. map_of M a = Some b \<longrightarrow>
                   a < old \<and> c \<le> b \<and> b < e \<and> (b = c \<longrightarrow> a = config)
                   \<and> (a \<noteq> config \<longrightarrow> similar (copied H M) (H ! a) (H ! b))"
    unfolding copy_ok_def by blast
  from bes have len: "length g = length H" unfolding beside_def by blast
  have ol: "old \<le> length H" using ce by simp
  have cl: "c < length H" using ce by simp
  have cfgo: "config < old" using cX X by blast
  have cc: "c \<noteq> config" using cfgo ce by simp
  \<comment> \<open>the objects beside the two configurations\<close>
  have oldobj: "g ! u = H ! u" if "u \<in> X" for u
  proof -
    from that X have "u < old" by blast
    moreover from that rX have "u \<noteq> r" by blast
    moreover from \<open>u < old\<close> rt have "u \<notin> roots" by auto
    ultimately show ?thesis using bes ol unfolding beside_def by simp
  qed
  have atom: "g ! b = H ! b" if "atomic (H ! b)" "b < length H" for b
  proof -
    from that(1) dr have "b \<noteq> r" by auto
    moreover from that(1) rt have "b \<notin> roots" by auto
    ultimately show ?thesis using bes that(2) unfolding beside_def by simp
  qed
  have inner: "g ! u = H ! u" if "c \<le> u" "u < e" "u \<noteq> c" for u
  proof -
    from that ce r have "u \<noteq> r" by simp
    moreover from that rt have "u \<notin> roots" by auto
    ultimately show ?thesis using bes that(2) ce(3) unfolding beside_def by simp
  qed
  from bes cr cl ce r obtain its its' where
    "H ! c = ODict its" "g ! c = ODict its'" "own_fields its' = own_fields its"
    unfolding beside_def by (metis less_le_trans nat_neq_iff)
  with hc have gc: "g ! c = ODict its'" and own: "own_fields its' = own_fields items"
    by (simp_all add: own_fields_attach_items)
  have Kc: "unshared g c ! c = ODict (own_fields items)"
    using unshared_dict [of c g its'] cl len gc own by simp
  have Gc: "unshared g config ! config = ODict (own_fields popped)"
    using unshared_dict [of config g "attach_items p eh popped"] oldobj [OF cX] hcfg cfgo ol len
    by (simp add: own_fields_attach_items)
  define R where "R = (\<lambda>a b. a \<in> X \<and> copied H M a b)"
  have bis: "(a < length (unshared g config) \<longleftrightarrow> b < length (unshared g c))
      \<and> (a < length (unshared g config)
           \<longrightarrow> similar R (unshared g config ! a) (unshared g c ! b))"
    if "R a b" for a b
  proof -
    from that have aX: "a \<in> X" and cop: "copied H M a b" by (simp_all add: R_def)
    from aX X have ao: "a < old" and ac: "set (object_children (hP ! a)) \<subseteq> X" by blast+
    have al: "a < length H" using ao ol by simp
    have sim: "similar R (unshared g config ! a) (unshared g c ! b)"
    proof (cases "atomic (H ! a)")
      case True
      with cop have ba: "b = a" by (simp add: copied_def)
      from True hcfg have "a \<noteq> config" by auto
      moreover from ao ce have "a \<noteq> c" by simp
      ultimately have "unshared g config ! a = H ! a" "unshared g c ! a = H ! a"
        using atom [OF True al] by (simp_all add: unshared_other)
      with True ba show ?thesis by (cases "H ! a") simp_all
    next
      case False
      with cop have m: "map_of M a = Some b" by (simp add: copied_def)
      show ?thesis
      proof (cases "a = config")
        case True
        with m root have bc: "b = c" by simp
        have "similar (copied H M) (ODict (own_fields popped)) (ODict (own_fields items))"
          using simc by (rule similar_own_fields)
        then have "similar R (ODict (own_fields popped)) (ODict (own_fields items))"
        proof (rule similar_mono)
          fix u v assume "u \<in> set (object_children (ODict (own_fields popped)))"
            and "copied H M u v"
          moreover have "set (map snd (own_fields popped)) \<subseteq> X"
            using set_own_fields [of popped] ac True dP by auto
          ultimately show "R u v" by (auto simp: R_def)
        qed
        with True bc Gc Kc show ?thesis by simp
      next
        case nc: False
        with m memo have b: "c \<le> b" "b < e" "b \<noteq> c"
          and s: "similar (copied H M) (H ! a) (H ! b)" by blast+
        have "unshared g config ! a = H ! a"
          using nc oldobj [OF aX] by (simp add: unshared_other)
        moreover have "unshared g c ! b = H ! b"
          using b inner by (simp add: unshared_other)
        moreover have "similar R (H ! a) (H ! b)"
          using s
        proof (rule similar_mono)
          fix u v assume "u \<in> set (object_children (H ! a))" and "copied H M u v"
          moreover have "H ! a = hP ! a" using keep ao nc by simp
          ultimately show "R u v" using ac by (auto simp: R_def)
        qed
        ultimately show ?thesis by simp
      qed
    qed
    have "b < length H"
    proof (cases "atomic (H ! a)")
      case True
      with cop al show ?thesis by (simp add: copied_def)
    next
      case False
      with cop have "map_of M a = Some b" by (simp add: copied_def)
      with memo ce show ?thesis by (metis less_le_trans)
    qed
    with al sim len show ?thesis by (simp add: unshared_length)
  qed
  have "R config c" using root cX hcfg by (simp add: R_def copied_def)
  have "view n (unshared g config) config = view n (unshared g c) c"
    by (rule view_similar2 [where R = R]) (use bis \<open>R config c\<close> in blast)+
  then show ?thesis by simp
qed


subsection \<open>The localized copies share the plugins, the hooks and the environment only\<close>

lemma view_same_on:
  assumes a: "a \<in> X"
    and X: "\<forall>u \<in> X. u < length G \<and> u < length K \<and> G ! u = K ! u
              \<and> set (object_children (G ! u)) \<subseteq> X"
  shows "view n G a = view n K a"
proof -
  define R where "R = (\<lambda>u v. v = u \<and> u \<in> X)"
  have bis: "(u < length G \<longleftrightarrow> v < length K) \<and> (u < length G \<longrightarrow> similar R (G ! u) (K ! v))"
    if "R u v" for u v
  proof -
    from that have vu: "v = u" and uX: "u \<in> X" by (simp_all add: R_def)
    have "similar (=) (G ! u) (G ! u)" by (rule similar_refl) simp
    then have "similar R (G ! u) (G ! u)"
    proof (rule similar_mono)
      fix w w' assume w: "w \<in> set (object_children (G ! u))" "w = w'"
      from X uX have "set (object_children (G ! u)) \<subseteq> X" by blast
      with w show "R w w'" unfolding R_def by blast
    qed
    with X uX vu show ?thesis by simp
  qed
  have "R a a" using a by (simp add: R_def)
  show ?thesis
    by (rule view_similar2 [where R = R]) (use bis \<open>R a a\<close> in blast)+
qed

lemma map_of_update_other: "k' \<noteq> k \<Longrightarrow> map_of (AList.update k v items) k' = map_of items k'"
  by (simp add: update_conv')

text \<open>
  With hooks that are truthy, or with no hooks, the localized copies are as they are
  meant to be. The store is closed, the configuration is a dict with plugins that
  reaches \<open>i18n_configs\<close> by its plugins only, the hooks are not the configuration
  itself, the depth is above the number of objects and the languages are distinct.
  Then the part of \<open>on_config\<close> that makes the copies returns. The objects that were
  there are as they were, beside the configuration and \<open>i18n_configs\<close>; the
  configuration has the entries that it had, and its own fields show what they showed;
  \<open>i18n_configs\<close> has its other entries and, for every language, a new configuration
  with the very plugins and hooks of the configuration, whose own fields show what
  those of the configuration show. \<open>on_env\<close> returns as well and gives every one of them
  the environment. After that, a list or dict that one of them reaches by its own fields
  is reached neither by the configuration nor by the configuration of another language
  by their own fields, so whatever is written to it, their own fields show what they
  showed.
\<close>

lemma localized_copies_share_plugins_hooks_env:
  assumes ch: "closed_heap h"
    and pop: "dict_pop h config ''plugins'' = Inr (h0, plugins)"
    and apart: "i18n_configs \<notin> reach h0 config"
    and reg: "i18n_configs < length h" "h ! i18n_configs = ODict entries"
    and hk: "\<forall>hooks. dict_get h config ''hooks'' = Some hooks
               \<longrightarrow> truthy (h ! hooks) \<and> hooks \<noteq> config"
    and fuel: "length h < depth" and dist: "distinct all"
  shows "\<exists>h1. localized_copies depth all i18n_configs config h = Some (Inr h1)
      \<and> length h \<le> length h1
      \<and> (\<forall>a < length h. a \<noteq> config \<and> a \<noteq> i18n_configs \<longrightarrow> h1 ! a = h ! a)
      \<and> (\<forall>k. dict_get h1 config k = dict_get h config k)
      \<and> (\<forall>n. view n (unshared h1 config) config = view n (unshared h config) config)
      \<and> (\<forall>l. l \<notin> set all \<longrightarrow> dict_get h1 i18n_configs l = dict_get h i18n_configs l)
      \<and> (\<forall>l \<in> set all. \<exists>cfg.
            dict_get h1 i18n_configs l = Some cfg \<and> length h \<le> cfg
            \<and> dict_get h1 cfg ''plugins'' = Some plugins
            \<and> dict_get h1 cfg ''hooks'' = dict_get h config ''hooks''
            \<and> (\<forall>n. view n (unshared h1 cfg) cfg = view n (unshared h1 config) config))
      \<and> (\<forall>env < length h1. \<exists>h2.
            on_env all env i18n_configs h1 = Inr h2
            \<and> (\<forall>k. dict_get h2 config k = dict_get h config k)
            \<and> (\<forall>l \<in> set all. \<exists>cfg.
                  dict_get h2 i18n_configs l = Some cfg
                  \<and> dict_get h1 i18n_configs l = Some cfg
                  \<and> dict_get h2 cfg ''env'' = Some env
                  \<and> dict_get h2 cfg ''plugins'' = Some plugins
                  \<and> dict_get h2 cfg ''hooks'' = dict_get h config ''hooks''
                  \<and> (\<forall>n. view n (unshared h2 cfg) cfg = view n (unshared h2 config) config)
                  \<and> (\<forall>a. a \<in> reach (unshared h2 cfg) cfg \<and> \<not> atomic (h2 ! a) \<longrightarrow>
                        a \<notin> reach (unshared h2 config) config
                        \<and> (\<forall>l' cfg'. l' \<in> set all \<and> l' \<noteq> l
                                \<and> dict_get h2 i18n_configs l' = Some cfg'
                              \<longrightarrow> a \<notin> reach (unshared h2 cfg') cfg')
                        \<and> (\<forall>obj n.
                              view n (unshared (h2[a := obj]) config) config
                                = view n (unshared h2 config) config
                              \<and> (\<forall>l' cfg'. l' \<in> set all \<and> l' \<noteq> l
                                      \<and> dict_get h2 i18n_configs l' = Some cfg'
                                    \<longrightarrow> view n (unshared (h2[a := obj]) cfg') cfg'
                                        = view n (unshared h2 cfg') cfg')))))"
proof -
  let ?r = i18n_configs
  from pop obtain items where cfg: "config < length h" and d: "h ! config = ODict items"
    and plm: "map_of items ''plugins'' = Some plugins"
    and h0: "h0 = h[config := ODict (AList.delete ''plugins'' items)]"
    unfolding dict_pop_def by (auto split: if_splits py_object.splits option.splits)
  have dg: "dict_get h config k = map_of items k" for k
    using cfg d by (simp add: dict_get_def)
  from hk have hkm: "map_of items ''hooks'' \<noteq> Some config" unfolding dg by blast
  define popped where "popped = AList.delete ''plugins'' (AList.delete ''hooks'' items)"
  define eh where "eh = (case map_of items ''hooks'' of None \<Rightarrow> None
                         | Some a \<Rightarrow> if truthy (h ! a) then Some a else None)"
  define old where "old = length h"
  define hP where "hP = h[config := ODict popped]"
  define X where "X = reach hP config"
  have eh_eq: "eh = map_of items ''hooks''"
    unfolding eh_def using hk unfolding dg by (cases "map_of items ''hooks''") simp_all
  from localized_copies_ok [OF ch cfg d plm hkm fuel dist reg apart [unfolded h0]]
  obtain H4 cs E its where
    res: "localized_copies depth all ?r config h = Some (Inr (H4[?r := ODict its]))"
    and keys: "map fst cs = all" and ch4: "closed_heap H4" and l4: "old \<le> length H4"
    and keep: "\<forall>a < old. a \<noteq> config \<longrightarrow> H4 ! a = h ! a"
    and h4c: "H4 ! config = ODict (attach_items plugins eh popped)"
    and inv: "copies_ok old config popped plugins eh H4 cs E"
    and ent: "\<forall>l. map_of its l = (if l \<in> set all then map_of cs l else map_of entries l)"
    unfolding popped_def eh_def old_def by blast
  define g4 where "g4 = H4[?r := ODict its]"
  define roots where "roots = {c. \<exists>l. map_of cs l = Some c}"
  from inv have
    i1: "\<forall>l c. map_of cs l = Some c \<longrightarrow>
           old \<le> c \<and> c < E c \<and> E c \<le> length H4
           \<and> copy_ok old config popped plugins eh H4 c (E c)"
    and i2: "\<forall>l c l' c'. map_of cs l = Some c \<and> map_of cs l' = Some c' \<and> l \<noteq> l'
               \<longrightarrow> E c \<le> c' \<or> E c' \<le> c"
    unfolding copies_ok_def by blast+
  have cfgo: "config < old" using cfg old_def by simp
  have ro: "?r < old" using reg(1) old_def by simp
  have rc: "?r \<noteq> config" using apart reach_self [of config h0] by auto
  have r4: "?r < length H4" using ro l4 by simp
  have H4r: "H4 ! ?r = ODict entries" using keep ro rc reg(2) by simp
  have dr: "\<not> atomic (H4 ! ?r)" using H4r by simp
  have nh: "map_of popped ''hooks'' = None"
    unfolding popped_def by (simp add: delete_conv')
  \<comment> \<open>what the configuration reaches once hooks and plugins are popped\<close>
  have items_old: "\<forall>b \<in> set (map snd items). b < old"
    using ch cfg d unfolding closed_heap_iff old_def by fastforce
  have popped_sub: "set (map snd popped) \<subseteq> set (map snd (AList.delete ''plugins'' items))"
  proof -
    have "popped = AList.delete ''hooks'' (AList.delete ''plugins'' items)"
      unfolding popped_def by (rule delete_twist)
    then show ?thesis
      using set_snd_delete [of "''hooks''" "AList.delete ''plugins'' items"] by simp
  qed
  have pc: "\<forall>u \<in> set (map snd popped). u < old"
    using popped_sub set_snd_delete [of "''plugins''" items] items_old by blast
  have chP: "closed_heap hP"
    unfolding hP_def using ch pc old_def by (intro closed_heap_update) simp_all
  have XP: "\<forall>u \<in> X. u < old \<and> set (object_children (hP ! u)) \<subseteq> X"
    using reach_closed [OF chP, of config] cfg unfolding X_def hP_def old_def by simp
  have cX: "config \<in> X" unfolding X_def by (rule reach_self)
  have rX: "?r \<notin> X"
    using reach_fewer_children [OF cfg, of "ODict popped"
        "ODict (AList.delete ''plugins'' items)" config] popped_sub apart
    unfolding X_def hP_def h0 by auto
  have dP: "hP ! config = ODict popped" unfolding hP_def using cfg by simp
  have keepP: "\<forall>a < old. a \<noteq> config \<longrightarrow> H4 ! a = hP ! a"
    using keep unfolding hP_def by simp
  \<comment> \<open>the roots of the copies\<close>
  have root_old: "\<forall>c \<in> roots. old \<le> c" using i1 unfolding roots_def by blast
  have root_dict: "\<exists>items'. H4 ! c = ODict items'" if "c \<in> roots" for c
  proof -
    from that i1 obtain l where "copy_ok old config popped plugins eh H4 c (E c)"
      unfolding roots_def by blast
    then show ?thesis unfolding copy_ok_def by blast
  qed
  have rt: "\<forall>u \<in> roots. (u = c \<or> u < c \<or> E c \<le> u) \<and> \<not> atomic (H4 ! u) \<and> old \<le> u"
    if lc: "map_of cs l = Some c" for l c
  proof
    fix u assume u: "u \<in> roots"
    then obtain l' where l': "map_of cs l' = Some u" unfolding roots_def by blast
    have "u = c \<or> u < c \<or> E c \<le> u"
    proof (cases "l' = l")
      case True
      with l' lc show ?thesis by simp
    next
      case False
      with i2 lc l' have "E c \<le> u \<or> E u \<le> c" by blast
      moreover from i1 l' have "u < E u" by blast
      ultimately show ?thesis by auto
    qed
    moreover from root_dict [OF u] have "\<not> atomic (H4 ! u)" by auto
    ultimately show "(u = c \<or> u < c \<or> E c \<le> u) \<and> \<not> atomic (H4 ! u) \<and> old \<le> u"
      using root_old u by blast
  qed
  have rt': "\<forall>u \<in> roots. (u = c \<or> u < c \<or> E c \<le> u) \<and> \<not> atomic (H4 ! u)"
    if lc: "map_of cs l = Some c" for l c
    using rt [OF lc] by blast
  \<comment> \<open>every store that is \<open>H4\<close> beside \<open>i18n_configs\<close> and the environment of the copies\<close>
  have own: "(\<forall>n. view n (unshared g c) c = view n (unshared g config) config)
             \<and> reach (unshared g c) c \<subseteq> {a. c \<le> a \<and> a < E c} \<union> {a. atomic (g ! a)}"
    if bes: "beside ?r roots H4 g" and lc: "map_of cs l = Some c" for g l c
  proof -
    from i1 lc have c: "old \<le> c" "c < E c" "E c \<le> length H4"
      and ok: "copy_ok old config popped plugins eh H4 c (E c)" by blast+
    have cr: "c \<in> roots" using lc unfolding roots_def by blast
    have "view n (unshared g c) c = view n (unshared g config) config" for n
      by (rule copy_own_view [OF ok c cr rt [OF lc] ro dr XP cX rX dP keepP h4c bes])
    moreover have "reach (unshared g c) c \<subseteq> {a. c \<le> a \<and> a < E c} \<union> {a. atomic (g ! a)}"
      by (rule copy_own_reach [OF ok c cr rt' [OF lc] ro dr pc bes])
    ultimately show ?thesis by blast
  qed
  have base: "reach (unshared g config) config \<subseteq> X" if bes: "beside ?r roots H4 g" for g
    by (rule base_own_reach [OF XP cX rX dP keepP h4c l4 root_old bes])
  \<comment> \<open>the store that \<open>on_config\<close> leaves\<close>
  have len4: "length g4 = length H4" unfolding g4_def by simp
  have g4o: "g4 ! a = H4 ! a" if "a \<noteq> ?r" for a unfolding g4_def using that by simp
  have g4r: "g4 ! ?r = ODict its" unfolding g4_def using r4 by simp
  have bes4: "beside ?r roots H4 g4"
    unfolding beside_def
  proof (intro conjI allI impI)
    show "length g4 = length H4" by (rule len4)
  next
    fix a assume a: "a < length H4" "a \<noteq> ?r"
    show "if a \<in> roots
          then \<exists>items items'. H4 ! a = ODict items \<and> g4 ! a = ODict items'
                 \<and> own_fields items' = own_fields items
          else g4 ! a = H4 ! a"
    proof (cases "a \<in> roots")
      case True
      from root_dict [OF this] obtain items' where "H4 ! a = ODict items'" by blast
      with True g4o [OF a(2)] show ?thesis by simp
    next
      case False
      with g4o [OF a(2)] show ?thesis by simp
    qed
  qed
  have ent_all: "map_of its l = map_of cs l" if "l \<in> set all" for l using ent that by simp
  have cs_all: "\<exists>c. map_of cs l = Some c" if "l \<in> set all" for l
  proof -
    from that have "l \<in> set (map fst cs)" unfolding keys .
    then have "map_of cs l \<noteq> None" by (simp add: map_of_eq_None_iff)
    then show ?thesis by auto
  qed
  have all_cs: "l \<in> set all" if "map_of cs l = Some c" for l c
  proof -
    from map_of_SomeD [OF that] have "(l, c) \<in> set cs" .
    then have "l \<in> set (map fst cs)" by force
    then show ?thesis unfolding keys .
  qed
  have reg4: "dict_get g4 ?r l = map_of its l" for l
    using r4 g4r len4 by (simp add: dict_get_def)
  have part_a: "\<forall>a < length h. a \<noteq> config \<and> a \<noteq> ?r \<longrightarrow> g4 ! a = h ! a"
    using keep g4o old_def by simp
  have items_eq: "map_of (attach_items plugins eh popped) k = map_of items k" for k
  proof (cases "k = ''plugins''")
    case True
    with plm show ?thesis by (simp add: map_of_attach_items(1))
  next
    case np: False
    show ?thesis
    proof (cases "k = ''hooks''")
      case True
      with nh eh_eq show ?thesis
        by (cases "map_of items ''hooks''") (simp_all add: map_of_attach_items(2))
    next
      case False
      then have "map_of (attach_items plugins eh popped) k = map_of popped k"
        using np by (cases eh) (simp_all add: attach_items_def map_of_update_other)
      also have "\<dots> = map_of items k"
        unfolding popped_def using np False by (simp add: delete_conv')
      finally show ?thesis .
    qed
  qed
  have base_entries: "dict_get g config k = dict_get h config k"
    if "length g = length H4" "g ! config = H4 ! config" for g k
    using that cfgo l4 h4c items_eq [of k] dg [of k] by (simp add: dict_get_def)
  have part_b: "dict_get g4 config k = dict_get h config k" for k
    by (rule base_entries [OF len4 g4o]) (use rc in simp)
  have part_c: "view n (unshared g4 config) config = view n (unshared h config) config" for n
  proof (rule view_same_on [OF cX], intro ballI)
    fix u assume uX: "u \<in> X"
    with XP have uo: "u < old" and uc: "set (object_children (hP ! u)) \<subseteq> X" by blast+
    from uX rX have ur: "u \<noteq> ?r" by blast
    have own_items: "own_fields (attach_items plugins eh popped) = own_fields items"
      unfolding popped_def by (simp add: own_fields_attach_items own_fields_delete)
    have same: "unshared g4 config ! u = unshared h config ! u"
    proof (cases "u = config")
      case True
      have "unshared g4 config ! config = ODict (own_fields (attach_items plugins eh popped))"
        using unshared_dict [of config g4] g4o [of config] rc h4c cfgo l4 len4 by simp
      moreover have "unshared h config ! config = ODict (own_fields items)"
        using unshared_dict [OF cfg d] .
      ultimately show ?thesis using True own_items by simp
    next
      case False
      with keep uo ur g4o show ?thesis by (simp add: unshared_other)
    qed
    have "set (object_children (unshared g4 config ! u)) \<subseteq> X"
    proof (cases "u = config")
      case True
      have "unshared g4 config ! config = ODict (own_fields popped)"
        using unshared_dict [of config g4] g4o [of config] rc h4c cfgo l4 len4
        by (simp add: own_fields_attach_items)
      with True uc dP set_own_fields [of popped] show ?thesis by auto
    next
      case False
      with keepP uo ur g4o uc show ?thesis by (simp add: unshared_other)
    qed
    with same uo l4 len4 old_def
    show "u < length (unshared g4 config) \<and> u < length (unshared h config)
          \<and> unshared g4 config ! u = unshared h config ! u
          \<and> set (object_children (unshared g4 config ! u)) \<subseteq> X"
      by (simp add: unshared_length)
  qed
  have part_d: "dict_get g4 ?r l = dict_get h ?r l" if "l \<notin> set all" for l
    unfolding reg4 using ent that reg by (simp add: dict_get_def)
  have part_e: "\<exists>c. dict_get g4 ?r l = Some c \<and> length h \<le> c
            \<and> dict_get g4 c ''plugins'' = Some plugins
            \<and> dict_get g4 c ''hooks'' = dict_get h config ''hooks''
            \<and> (\<forall>n. view n (unshared g4 c) c = view n (unshared g4 config) config)"
    if l: "l \<in> set all" for l
  proof -
    from cs_all [OF l] obtain c where lc: "map_of cs l = Some c" by blast
    from i1 lc have c: "old \<le> c" "c < E c" "E c \<le> length H4"
      and ok: "copy_ok old config popped plugins eh H4 c (E c)" by blast+
    have "c \<noteq> ?r" using c ro by simp
    then have "dict_get g4 c k = dict_get H4 c k" for k
      using g4o [of c] len4 by (simp add: dict_get_def)
    with copy_ok_shared [OF ok c(2,3) nh] eh_eq dg
    have "dict_get g4 c ''plugins'' = Some plugins"
      "dict_get g4 c ''hooks'' = dict_get h config ''hooks''" by simp_all
    with own [OF bes4 lc] lc ent_all [OF l] c(1) show ?thesis
      unfolding reg4 old_def by auto
  qed
  \<comment> \<open>the store that \<open>on_env\<close> leaves\<close>
  have part_f: "\<exists>g5. on_env all env ?r g4 = Inr g5
            \<and> (\<forall>k. dict_get g5 config k = dict_get h config k)
            \<and> (\<forall>l \<in> set all. \<exists>c.
                  dict_get g5 ?r l = Some c
                  \<and> dict_get g4 ?r l = Some c
                  \<and> dict_get g5 c ''env'' = Some env
                  \<and> dict_get g5 c ''plugins'' = Some plugins
                  \<and> dict_get g5 c ''hooks'' = dict_get h config ''hooks''
                  \<and> (\<forall>n. view n (unshared g5 c) c = view n (unshared g5 config) config)
                  \<and> (\<forall>a. a \<in> reach (unshared g5 c) c \<and> \<not> atomic (g5 ! a) \<longrightarrow>
                        a \<notin> reach (unshared g5 config) config
                        \<and> (\<forall>l' c'. l' \<in> set all \<and> l' \<noteq> l \<and> dict_get g5 ?r l' = Some c'
                              \<longrightarrow> a \<notin> reach (unshared g5 c') c')
                        \<and> (\<forall>obj n.
                              view n (unshared (g5[a := obj]) config) config
                                = view n (unshared g5 config) config
                              \<and> (\<forall>l' c'. l' \<in> set all \<and> l' \<noteq> l
                                      \<and> dict_get g5 ?r l' = Some c'
                                    \<longrightarrow> view n (unshared (g5[a := obj]) c') c'
                                        = view n (unshared g5 c') c'))))"
    if env: "env < length g4" for env
  proof -
    have pre: "\<forall>l \<in> set all. \<exists>c items'. map_of its l = Some c \<and> c < length g4 \<and> c \<noteq> ?r
                 \<and> g4 ! c = ODict items'"
    proof
      fix l assume l: "l \<in> set all"
      from cs_all [OF l] obtain c where lc: "map_of cs l = Some c" by blast
      from i1 lc have c: "old \<le> c" "c < E c" "E c \<le> length H4" by blast+
      have cr: "c \<in> roots" using lc unfolding roots_def by blast
      from root_dict [OF cr] obtain items' where "H4 ! c = ODict items'" by blast
      with c ro g4o [of c] len4 lc ent_all [OF l]
      show "\<exists>c items'. map_of its l = Some c \<and> c < length g4 \<and> c \<noteq> ?r
              \<and> g4 ! c = ODict items'" by auto
    qed
    have r4': "?r < length g4" using r4 len4 by simp
    have rts: "(\<exists>l \<in> set all. map_of its l = Some a) = (a \<in> roots)" for a
    proof
      assume "\<exists>l \<in> set all. map_of its l = Some a"
      then obtain l where "l \<in> set all" "map_of its l = Some a" by blast
      with ent_all have "map_of cs l = Some a" by simp
      then show "a \<in> roots" unfolding roots_def by blast
    next
      assume "a \<in> roots"
      then obtain l where l: "map_of cs l = Some a" unfolding roots_def by blast
      from all_cs [OF l] ent_all l show "\<exists>l \<in> set all. map_of its l = Some a" by auto
    qed
    from on_env_ok [OF r4' g4r pre, of env] obtain g5 where
      oe: "on_env all env ?r g4 = Inr g5" and len5: "length g5 = length g4"
      and upd: "\<forall>a < length g4.
           (a \<in> roots \<longrightarrow>
              (\<exists>items'. g4 ! a = ODict items'
                  \<and> g5 ! a = ODict (AList.update ''env'' env items')))
           \<and> (a \<notin> roots \<longrightarrow> g5 ! a = g4 ! a)"
      unfolding rts by blast
    have rnr: "?r \<notin> roots" using root_old ro by auto
    have cnr: "config \<notin> roots" using root_old cfgo by auto
    have g5r: "g5 ! ?r = ODict its" using upd r4' rnr g4r by simp
    have reg5: "dict_get g5 ?r l = map_of its l" for l
      using r4' g5r len5 by (simp add: dict_get_def)
    have bes5: "beside ?r roots H4 g5"
      unfolding beside_def
    proof (intro conjI allI impI)
      show "length g5 = length H4" using len5 len4 by simp
    next
      fix a assume a: "a < length H4" "a \<noteq> ?r"
      show "if a \<in> roots
            then \<exists>items items'. H4 ! a = ODict items \<and> g5 ! a = ODict items'
                   \<and> own_fields items' = own_fields items
            else g5 ! a = H4 ! a"
      proof (cases "a \<in> roots")
        case True
        with upd a len4 obtain items' where
          i: "g4 ! a = ODict items'" "g5 ! a = ODict (AList.update ''env'' env items')" by auto
        from i(1) g4o [OF a(2)] have "H4 ! a = ODict items'" by simp
        moreover have "own_fields (AList.update ''env'' env items') = own_fields items'"
          by (simp add: own_fields_update)
        ultimately have "\<exists>items items'. H4 ! a = ODict items \<and> g5 ! a = ODict items'
                   \<and> own_fields items' = own_fields items" using i(2) by blast
        with True show ?thesis by simp
      next
        case False
        with upd a len4 g4o [OF a(2)] show ?thesis by simp
      qed
    qed
    have e0: "dict_get g5 config k = dict_get h config k" for k
      by (rule base_entries) (use len5 len4 upd cnr cfgo l4 g4o [of config] rc in simp_all)
    have each: "\<exists>c. dict_get g5 ?r l = Some c
                  \<and> dict_get g4 ?r l = Some c
                  \<and> dict_get g5 c ''env'' = Some env
                  \<and> dict_get g5 c ''plugins'' = Some plugins
                  \<and> dict_get g5 c ''hooks'' = dict_get h config ''hooks''
                  \<and> (\<forall>n. view n (unshared g5 c) c = view n (unshared g5 config) config)
                  \<and> (\<forall>a. a \<in> reach (unshared g5 c) c \<and> \<not> atomic (g5 ! a) \<longrightarrow>
                        a \<notin> reach (unshared g5 config) config
                        \<and> (\<forall>l' c'. l' \<in> set all \<and> l' \<noteq> l \<and> dict_get g5 ?r l' = Some c'
                              \<longrightarrow> a \<notin> reach (unshared g5 c') c')
                        \<and> (\<forall>obj n.
                              view n (unshared (g5[a := obj]) config) config
                                = view n (unshared g5 config) config
                              \<and> (\<forall>l' c'. l' \<in> set all \<and> l' \<noteq> l
                                      \<and> dict_get g5 ?r l' = Some c'
                                    \<longrightarrow> view n (unshared (g5[a := obj]) c') c'
                                        = view n (unshared g5 c') c')))"
      if l: "l \<in> set all" for l
    proof -
      from cs_all [OF l] obtain c where lc: "map_of cs l = Some c" by blast
      from i1 lc have c: "old \<le> c" "c < E c" "E c \<le> length H4"
        and ok: "copy_ok old config popped plugins eh H4 c (E c)" by blast+
      have cr: "c \<in> roots" using lc unfolding roots_def by blast
      have cl: "c < length g4" using c len4 by simp
      have cnr': "c \<noteq> ?r" using c ro by simp
      from upd cl cr obtain its' where
        it: "g4 ! c = ODict its'" "g5 ! c = ODict (AList.update ''env'' env its')" by blast
      have g5c: "dict_get g5 c k = map_of (AList.update ''env'' env its') k" for k
        using cl len5 it by (simp add: dict_get_def)
      have g4c: "dict_get H4 c k = map_of its' k" for k
        using cl len4 it g4o [OF cnr'] by (simp add: dict_get_def)
      have e1: "dict_get g5 c ''env'' = Some env"
        unfolding g5c by (simp add: update_conv')
      have e2: "dict_get g5 c ''plugins'' = Some plugins"
        unfolding g5c using copy_ok_shared(1) [OF ok c(2,3) nh] g4c
        by (simp add: map_of_update_other)
      have e3: "dict_get g5 c ''hooks'' = dict_get h config ''hooks''"
        unfolding g5c using copy_ok_shared(2) [OF ok c(2,3) nh] g4c eh_eq dg
        by (simp add: map_of_update_other)
      note o = own [OF bes5 lc]
      have region: "c \<le> a \<and> a < E c"
        if "a \<in> reach (unshared g5 c) c" "\<not> atomic (g5 ! a)" for a
        using o that by blast
      have sep: "a \<notin> reach (unshared g5 config) config
                 \<and> (\<forall>l' c'. l' \<in> set all \<and> l' \<noteq> l \<and> dict_get g5 ?r l' = Some c'
                       \<longrightarrow> a \<notin> reach (unshared g5 c') c')"
        if a: "a \<in> reach (unshared g5 c) c" "\<not> atomic (g5 ! a)" for a
      proof -
        from region [OF a] have reg: "c \<le> a" "a < E c" by simp_all
        have "a \<notin> X" using XP reg(1) c(1) by auto
        with base [OF bes5] have "a \<notin> reach (unshared g5 config) config" by blast
        moreover have "a \<notin> reach (unshared g5 c') c'"
          if o': "l' \<in> set all" "l' \<noteq> l" "dict_get g5 ?r l' = Some c'" for l' c'
        proof
          assume ar: "a \<in> reach (unshared g5 c') c'"
          from o'(1,3) have lc': "map_of cs l' = Some c'"
            unfolding reg5 using ent_all by simp
          from own [OF bes5 lc'] ar a(2) have reg': "c' \<le> a" "a < E c'" by blast+
          from i2 lc lc' o'(2) have "E c \<le> c' \<or> E c' \<le> c" by blast
          with reg reg' show False by simp
        qed
        ultimately show ?thesis by blast
      qed
      have frame: "view n (unshared (g5[a := obj]) config) config
                     = view n (unshared g5 config) config
                   \<and> (\<forall>l' c'. l' \<in> set all \<and> l' \<noteq> l \<and> dict_get g5 ?r l' = Some c'
                         \<longrightarrow> view n (unshared (g5[a := obj]) c') c'
                             = view n (unshared g5 c') c')"
        if a: "a \<in> reach (unshared g5 c) c" "\<not> atomic (g5 ! a)" for a obj n
        using sep [OF a] by (simp add: view_unshared_write)
      have e5: "dict_get g5 ?r l = Some c" and e4: "dict_get g4 ?r l = Some c"
        unfolding reg5 reg4 using ent_all [OF l] lc by simp_all
      have e6: "\<forall>n. view n (unshared g5 c) c = view n (unshared g5 config) config"
        using o by blast
      have e7: "\<forall>a. a \<in> reach (unshared g5 c) c \<and> \<not> atomic (g5 ! a) \<longrightarrow>
                        a \<notin> reach (unshared g5 config) config
                        \<and> (\<forall>l' c'. l' \<in> set all \<and> l' \<noteq> l \<and> dict_get g5 ?r l' = Some c'
                              \<longrightarrow> a \<notin> reach (unshared g5 c') c')
                        \<and> (\<forall>obj n.
                              view n (unshared (g5[a := obj]) config) config
                                = view n (unshared g5 config) config
                              \<and> (\<forall>l' c'. l' \<in> set all \<and> l' \<noteq> l
                                      \<and> dict_get g5 ?r l' = Some c'
                                    \<longrightarrow> view n (unshared (g5[a := obj]) c') c'
                                        = view n (unshared g5 c') c'))"
      proof (intro allI impI)
        fix a assume "a \<in> reach (unshared g5 c) c \<and> \<not> atomic (g5 ! a)"
        then have a: "a \<in> reach (unshared g5 c) c" "\<not> atomic (g5 ! a)" by simp_all
        note s = sep [OF a]
        have f: "\<forall>obj n.
                   view n (unshared (g5[a := obj]) config) config
                     = view n (unshared g5 config) config
                   \<and> (\<forall>l' c'. l' \<in> set all \<and> l' \<noteq> l \<and> dict_get g5 ?r l' = Some c'
                         \<longrightarrow> view n (unshared (g5[a := obj]) c') c'
                             = view n (unshared g5 c') c')"
          by (intro allI) (rule frame [OF a])
        show "a \<notin> reach (unshared g5 config) config
                        \<and> (\<forall>l' c'. l' \<in> set all \<and> l' \<noteq> l \<and> dict_get g5 ?r l' = Some c'
                              \<longrightarrow> a \<notin> reach (unshared g5 c') c')
                        \<and> (\<forall>obj n.
                              view n (unshared (g5[a := obj]) config) config
                                = view n (unshared g5 config) config
                              \<and> (\<forall>l' c'. l' \<in> set all \<and> l' \<noteq> l
                                      \<and> dict_get g5 ?r l' = Some c'
                                    \<longrightarrow> view n (unshared (g5[a := obj]) c') c'
                                        = view n (unshared g5 c') c'))"
          by (rule conjI [OF conjunct1 [OF s] conjI [OF conjunct2 [OF s] f]])
      qed
      show ?thesis
        by (rule exI [of _ c]) (intro conjI e5 e4 e1 e2 e3 e6 e7)
    qed
    have e0': "\<forall>k. dict_get g5 config k = dict_get h config k" using e0 by blast
    show ?thesis
      by (rule exI [of _ g5]) (intro conjI ballI oe e0' each)
  qed
  have l4': "length h \<le> length g4" using l4 len4 old_def by simp
  have res': "localized_copies depth all ?r config h = Some (Inr g4)"
    unfolding g4_def by (rule res)
  have part_b': "\<forall>k. dict_get g4 config k = dict_get h config k" using part_b by blast
  have part_c': "\<forall>n. view n (unshared g4 config) config = view n (unshared h config) config"
    using part_c by blast
  have part_d': "\<forall>l. l \<notin> set all \<longrightarrow> dict_get g4 ?r l = dict_get h ?r l"
    using part_d by blast
  show ?thesis
    by (rule exI [of _ g4])
      (intro conjI ballI allI impI res' l4' part_a part_b' part_c' part_d' part_e part_f)
qed


text \<open>
  The example store with one hook file. The copies of \<open>fr\<close> and \<open>en\<close> are at the
  addresses 11 and 13, both hold the hooks at address 3, and the theme of the copy of
  \<open>fr\<close>, at address 12, is its own: a write to it changes neither what the configuration
  nor what the copy of \<open>en\<close> shows by its own fields.
\<close>

lemma localized_copies_share_plugins_hooks_env_example:
  "closed_heap (site_store (OList [4]))
   \<and> (\<exists>h0. dict_pop (site_store (OList [4])) 7 ''plugins'' = Inr (h0, 1) \<and> 10 \<notin> reach h0 7)
   \<and> dict_get (site_store (OList [4])) 7 ''hooks'' = Some 3
   \<and> truthy (site_store (OList [4]) ! 3)
   \<and> (\<exists>h1 h2.
         localized_copies 12 [''fr'', ''en''] 10 7 (site_store (OList [4])) = Some (Inr h1)
         \<and> on_env [''fr'', ''en''] 8 10 h1 = Inr h2
         \<and> dict_get h2 10 ''fr'' = Some 11 \<and> dict_get h2 10 ''en'' = Some 13
         \<and> dict_get h2 7 ''hooks'' = Some 3
         \<and> dict_get h2 11 ''hooks'' = Some 3 \<and> dict_get h2 13 ''hooks'' = Some 3
         \<and> dict_get h2 11 ''plugins'' = Some 1 \<and> dict_get h2 11 ''env'' = Some 8
         \<and> dict_get h2 11 ''theme'' = Some 12
         \<and> 12 \<in> reach (unshared h2 11) 11 \<and> \<not> atomic (h2 ! 12)
         \<and> 12 \<notin> reach (unshared h2 7) 7 \<and> 12 \<notin> reach (unshared h2 13) 13
         \<and> (\<forall>obj n. view n (unshared (h2[12 := obj]) 7) 7 = view n (unshared h2 7) 7
                   \<and> view n (unshared (h2[12 := obj]) 13) 13 = view n (unshared h2 13) 13))"
proof -
  let ?S = "site_store (OList [4])"
  let ?H0 = "[OStr ''My site'', ODict [(''search'', 2), (''i18n'', 9)], ODict [],
       OList [4], OStr ''hook.py'', ODict [(''name'', 6)], OStr ''mkdocs'',
       ODict [(''site_name'', 0), (''theme'', 5), (''hooks'', 3)], ODict [],
       ODict [(''i18n_configs'', 10)], ODict []]"
  let ?H1 = "[OStr ''My site'', ODict [(''search'', 2), (''i18n'', 9)], ODict [],
        OList [4], OStr ''hook.py'', ODict [(''name'', 6)], OStr ''mkdocs'',
        ODict [(''site_name'', 0), (''theme'', 5), (''plugins'', 1), (''hooks'', 3)],
        ODict [], ODict [(''i18n_configs'', 10)],
        ODict [(''fr'', 11), (''en'', 13)],
        ODict [(''site_name'', 0), (''theme'', 12), (''plugins'', 1), (''hooks'', 3)],
        ODict [(''name'', 6)],
        ODict [(''site_name'', 0), (''theme'', 14), (''plugins'', 1), (''hooks'', 3)],
        ODict [(''name'', 6)]]"
  let ?H2 = "[OStr ''My site'', ODict [(''search'', 2), (''i18n'', 9)], ODict [],
        OList [4], OStr ''hook.py'', ODict [(''name'', 6)], OStr ''mkdocs'',
        ODict [(''site_name'', 0), (''theme'', 5), (''plugins'', 1), (''hooks'', 3)],
        ODict [], ODict [(''i18n_configs'', 10)],
        ODict [(''fr'', 11), (''en'', 13)],
        ODict [(''site_name'', 0), (''theme'', 12), (''plugins'', 1), (''hooks'', 3),
               (''env'', 8)],
        ODict [(''name'', 6)],
        ODict [(''site_name'', 0), (''theme'', 14), (''plugins'', 1), (''hooks'', 3),
               (''env'', 8)],
        ODict [(''name'', 6)]]"
  have a1: "closed_heap ?S" by (simp add: closed_heap_def site_store_def)
  have a2: "dict_pop ?S 7 ''plugins'' = Inr (?H0, 1)"
    by (simp add: dict_pop_def site_store_def)
  have "reach ?H0 7 \<subseteq> {7, 0, 5, 6, 3, 4}"
    by (rule reach_subset) auto
  then have a3: "10 \<notin> reach ?H0 7" by auto
  have a4: "10 < length ?S" and a5: "?S ! 10 = ODict []" by (simp_all add: site_store_def)
  have hooks: "dict_get ?S 7 ''hooks'' = Some 3" and tr: "truthy (?S ! 3)"
    by (simp_all add: dict_get_def site_store_def)
  have a6: "\<forall>hooks. dict_get ?S 7 ''hooks'' = Some hooks \<longrightarrow> truthy (?S ! hooks) \<and> hooks \<noteq> 7"
    using hooks tr by simp
  have a7: "length ?S < 12" by (simp add: site_store_def)
  have a8: "distinct [''fr'', ''en'']" by simp
  have run: "localized_copies 12 [''fr'', ''en''] 10 7 ?S = Some (Inr ?H1)"
    by code_simp
  have env: "on_env [''fr'', ''en''] 8 10 ?H1 = Inr ?H2"
    by code_simp
  from localized_copies_share_plugins_hooks_env [OF a1 a2 a3 a4 a5 a6 a7 a8]
  obtain h1 where
    res: "localized_copies 12 [''fr'', ''en''] 10 7 ?S = Some (Inr h1)"
    and after: "\<forall>env < length h1. \<exists>h2.
            on_env [''fr'', ''en''] env 10 h1 = Inr h2
            \<and> (\<forall>k. dict_get h2 7 k = dict_get ?S 7 k)
            \<and> (\<forall>l \<in> set [''fr'', ''en'']. \<exists>cfg.
                  dict_get h2 10 l = Some cfg
                  \<and> dict_get h1 10 l = Some cfg
                  \<and> dict_get h2 cfg ''env'' = Some env
                  \<and> dict_get h2 cfg ''plugins'' = Some 1
                  \<and> dict_get h2 cfg ''hooks'' = dict_get ?S 7 ''hooks''
                  \<and> (\<forall>n. view n (unshared h2 cfg) cfg = view n (unshared h2 7) 7)
                  \<and> (\<forall>a. a \<in> reach (unshared h2 cfg) cfg \<and> \<not> atomic (h2 ! a) \<longrightarrow>
                        a \<notin> reach (unshared h2 7) 7
                        \<and> (\<forall>l' cfg'. l' \<in> set [''fr'', ''en''] \<and> l' \<noteq> l
                                \<and> dict_get h2 10 l' = Some cfg'
                              \<longrightarrow> a \<notin> reach (unshared h2 cfg') cfg')
                        \<and> (\<forall>obj n.
                              view n (unshared (h2[a := obj]) 7) 7
                                = view n (unshared h2 7) 7
                              \<and> (\<forall>l' cfg'. l' \<in> set [''fr'', ''en''] \<and> l' \<noteq> l
                                      \<and> dict_get h2 10 l' = Some cfg'
                                    \<longrightarrow> view n (unshared (h2[a := obj]) cfg') cfg'
                                        = view n (unshared h2 cfg') cfg'))))"
    by (elim exE conjE)
  from res have eq: "h1 = ?H1" unfolding run by simp
  have "8 < length h1" unfolding eq by simp
  with after obtain h2 where oe: "on_env [''fr'', ''en''] 8 10 h1 = Inr h2"
    and base: "\<forall>k. dict_get h2 7 k = dict_get ?S 7 k"
    and each: "\<forall>l \<in> set [''fr'', ''en'']. \<exists>cfg.
                  dict_get h2 10 l = Some cfg
                  \<and> dict_get h1 10 l = Some cfg
                  \<and> dict_get h2 cfg ''env'' = Some 8
                  \<and> dict_get h2 cfg ''plugins'' = Some 1
                  \<and> dict_get h2 cfg ''hooks'' = dict_get ?S 7 ''hooks''
                  \<and> (\<forall>n. view n (unshared h2 cfg) cfg = view n (unshared h2 7) 7)
                  \<and> (\<forall>a. a \<in> reach (unshared h2 cfg) cfg \<and> \<not> atomic (h2 ! a) \<longrightarrow>
                        a \<notin> reach (unshared h2 7) 7
                        \<and> (\<forall>l' cfg'. l' \<in> set [''fr'', ''en''] \<and> l' \<noteq> l
                                \<and> dict_get h2 10 l' = Some cfg'
                              \<longrightarrow> a \<notin> reach (unshared h2 cfg') cfg')
                        \<and> (\<forall>obj n.
                              view n (unshared (h2[a := obj]) 7) 7
                                = view n (unshared h2 7) 7
                              \<and> (\<forall>l' cfg'. l' \<in> set [''fr'', ''en''] \<and> l' \<noteq> l
                                      \<and> dict_get h2 10 l' = Some cfg'
                                    \<longrightarrow> view n (unshared (h2[a := obj]) cfg') cfg'
                                        = view n (unshared h2 cfg') cfg')))"
    by blast
  from oe have eq2: "h2 = ?H2" unfolding eq env by simp
  have fr10: "dict_get ?H2 10 ''fr'' = Some 11" and en10: "dict_get ?H2 10 ''en'' = Some 13"
    by (simp_all add: dict_get_def)
  have "''fr'' \<in> set [''fr'', ''en'']" by simp
  from bspec [OF each this] obtain cfg where
    c: "dict_get h2 10 ''fr'' = Some cfg"
    and c1: "dict_get h2 cfg ''env'' = Some 8" "dict_get h2 cfg ''plugins'' = Some 1"
      "dict_get h2 cfg ''hooks'' = dict_get ?S 7 ''hooks''"
    and sep: "\<forall>a. a \<in> reach (unshared h2 cfg) cfg \<and> \<not> atomic (h2 ! a) \<longrightarrow>
                        a \<notin> reach (unshared h2 7) 7
                        \<and> (\<forall>l' cfg'. l' \<in> set [''fr'', ''en''] \<and> l' \<noteq> ''fr''
                                \<and> dict_get h2 10 l' = Some cfg'
                              \<longrightarrow> a \<notin> reach (unshared h2 cfg') cfg')
                        \<and> (\<forall>obj n.
                              view n (unshared (h2[a := obj]) 7) 7
                                = view n (unshared h2 7) 7
                              \<and> (\<forall>l' cfg'. l' \<in> set [''fr'', ''en''] \<and> l' \<noteq> ''fr''
                                      \<and> dict_get h2 10 l' = Some cfg'
                                    \<longrightarrow> view n (unshared (h2[a := obj]) cfg') cfg'
                                        = view n (unshared h2 cfg') cfg'))"
    by blast
  from c fr10 have cfg: "cfg = 11" unfolding eq2 by simp
  have "''en'' \<in> set [''fr'', ''en'']" by simp
  from bspec [OF each this] en10 have en_hooks: "dict_get ?H2 13 ''hooks'' = dict_get ?S 7 ''hooks''"
    unfolding eq2 by auto
  have un: "unshared ?H2 11 = ?H2[11 := ODict [(''site_name'', 0), (''theme'', 12)]]"
    by (simp add: unshared_def own_fields_def)
  have r1: "12 \<in> reach (unshared ?H2 11) 11"
    unfolding un by (rule reach_child [OF reach_self, of 11]) simp_all
  have r2: "\<not> atomic (?H2 ! 12)" by simp
  from sep r1 r2 have
    s1: "12 \<notin> reach (unshared ?H2 7) 7"
    and s2: "\<forall>l' cfg'. l' \<in> set [''fr'', ''en''] \<and> l' \<noteq> ''fr''
                                \<and> dict_get ?H2 10 l' = Some cfg'
                              \<longrightarrow> 12 \<notin> reach (unshared ?H2 cfg') cfg'"
    and s3: "\<forall>obj n.
                              view n (unshared (?H2[12 := obj]) 7) 7
                                = view n (unshared ?H2 7) 7
                              \<and> (\<forall>l' cfg'. l' \<in> set [''fr'', ''en''] \<and> l' \<noteq> ''fr''
                                      \<and> dict_get ?H2 10 l' = Some cfg'
                                    \<longrightarrow> view n (unshared (?H2[12 := obj]) cfg') cfg'
                                        = view n (unshared ?H2 cfg') cfg')"
    unfolding eq2 cfg by blast+
  have en: "''en'' \<in> set [''fr'', ''en''] \<and> ''en'' \<noteq> ''fr'' \<and> dict_get ?H2 10 ''en'' = Some 13"
    using en10 by simp
  from s2 en have s2': "12 \<notin> reach (unshared ?H2 13) 13" by blast
  from s3 en have s3': "\<forall>obj n. view n (unshared (?H2[12 := obj]) 7) 7 = view n (unshared ?H2 7) 7
                   \<and> view n (unshared (?H2[12 := obj]) 13) 13 = view n (unshared ?H2 13) 13"
    by blast
  have g: "dict_get ?H2 7 ''hooks'' = Some 3" "dict_get ?H2 11 ''hooks'' = Some 3"
    "dict_get ?H2 13 ''hooks'' = Some 3" "dict_get ?H2 11 ''plugins'' = Some 1"
    "dict_get ?H2 11 ''env'' = Some 8" "dict_get ?H2 11 ''theme'' = Some 12"
    using base c1 en_hooks hooks unfolding eq2 cfg by (simp_all add: dict_get_def)
  have first: "\<exists>h0. dict_pop ?S 7 ''plugins'' = Inr (h0, 1) \<and> 10 \<notin> reach h0 7"
    using a2 a3 by blast
  have last: "\<exists>h1 h2.
         localized_copies 12 [''fr'', ''en''] 10 7 ?S = Some (Inr h1)
         \<and> on_env [''fr'', ''en''] 8 10 h1 = Inr h2
         \<and> dict_get h2 10 ''fr'' = Some 11 \<and> dict_get h2 10 ''en'' = Some 13
         \<and> dict_get h2 7 ''hooks'' = Some 3
         \<and> dict_get h2 11 ''hooks'' = Some 3 \<and> dict_get h2 13 ''hooks'' = Some 3
         \<and> dict_get h2 11 ''plugins'' = Some 1 \<and> dict_get h2 11 ''env'' = Some 8
         \<and> dict_get h2 11 ''theme'' = Some 12
         \<and> 12 \<in> reach (unshared h2 11) 11 \<and> \<not> atomic (h2 ! 12)
         \<and> 12 \<notin> reach (unshared h2 7) 7 \<and> 12 \<notin> reach (unshared h2 13) 13
         \<and> (\<forall>obj n. view n (unshared (h2[12 := obj]) 7) 7 = view n (unshared h2 7) 7
                   \<and> view n (unshared (h2[12 := obj]) 13) 13 = view n (unshared h2 13) 13)"
    by (rule exI [of _ ?H1], rule exI [of _ ?H2])
      (intro conjI run env fr10 en10 g r1 r2 s1 s2' s3')
  show ?thesis by (intro conjI a1 first hooks tr last)
qed


subsection \<open>Empty hooks\<close>

text \<open>
  C4. Every localized configuration and the base configuration are to hold the very same
  hooks object, and the other fields of the base configuration are to be copied. With
  hooks that are not truthy this is not so. In the example store with an empty dict of
  hooks at address 3 (what the configuration holds when no hook file is configured), the
  configuration at address 7 holds the hooks before the copies are made. \<open>on_config\<close>
  pops them, \<open>if hooks:\<close> fails on the empty dict in the loop and after it, and the
  hooks are put back nowhere: in the store that is returned neither the base
  configuration nor the configurations of \<open>fr\<close> and \<open>en\<close>, at addresses 11 and 13,
  have a \<open>hooks\<close> entry, and the base configuration is not what it was.
\<close>

theorem localized_copies_loses_empty_hooks:
  "dict_get (site_store (ODict [])) 7 ''hooks'' = Some 3
   \<and> localized_copies 12 [''fr'', ''en''] 10 7 (site_store (ODict []))
       = Some (Inr
          [OStr ''My site'',
           ODict [(''search'', 2), (''i18n'', 9)],
           ODict [],
           ODict [],
           OStr ''hook.py'',
           ODict [(''name'', 6)],
           OStr ''mkdocs'',
           ODict [(''site_name'', 0), (''theme'', 5), (''plugins'', 1)],
           ODict [],
           ODict [(''i18n_configs'', 10)],
           ODict [(''fr'', 11), (''en'', 13)],
           ODict [(''site_name'', 0), (''theme'', 12), (''plugins'', 1)],
           ODict [(''name'', 6)],
           ODict [(''site_name'', 0), (''theme'', 14), (''plugins'', 1)],
           ODict [(''name'', 6)]])
   \<and> (\<exists>h1. localized_copies 12 [''fr'', ''en''] 10 7 (site_store (ODict [])) = Some (Inr h1)
          \<and> dict_get h1 7 ''hooks'' = None
          \<and> dict_get h1 10 ''fr'' = Some 11 \<and> dict_get h1 11 ''hooks'' = None
          \<and> dict_get h1 10 ''en'' = Some 13 \<and> dict_get h1 13 ''hooks'' = None
          \<and> h1 ! 7 \<noteq> site_store (ODict []) ! 7)"
proof -
  have run: "localized_copies 12 [''fr'', ''en''] 10 7 (site_store (ODict []))
       = Some (Inr
          [OStr ''My site'',
           ODict [(''search'', 2), (''i18n'', 9)],
           ODict [],
           ODict [],
           OStr ''hook.py'',
           ODict [(''name'', 6)],
           OStr ''mkdocs'',
           ODict [(''site_name'', 0), (''theme'', 5), (''plugins'', 1)],
           ODict [],
           ODict [(''i18n_configs'', 10)],
           ODict [(''fr'', 11), (''en'', 13)],
           ODict [(''site_name'', 0), (''theme'', 12), (''plugins'', 1)],
           ODict [(''name'', 6)],
           ODict [(''site_name'', 0), (''theme'', 14), (''plugins'', 1)],
           ODict [(''name'', 6)]])"
    by code_simp
  have before: "dict_get (site_store (ODict [])) 7 ''hooks'' = Some 3"
    by (simp add: dict_get_def site_store_def)
  show ?thesis
    unfolding run using before by (simp add: dict_get_def site_store_def)
qed

end
